theory Spec2Isabelle
  imports Main "HOL-Library.Word"
begin

unbundle bit_operations_syntax

section \<open>The default boot loader's percent-decoder\<close>

text \<open>
  A C++ \<open>char\<close> is one byte; whether plain \<open>char\<close> is signed is left to the
  platform, so every function below takes that choice as its first argument
  (\<open>True\<close>: \<open>char\<close> is signed). \<open>char_to_int\<close> is the integral promotion of a
  \<open>char\<close> to \<open>int\<close>; the conversion back, \<open>char_of\<close>, keeps the low eight bits.
\<close>

definition char_to_int :: "bool \<Rightarrow> char \<Rightarrow> int" where
  "char_to_int sc c =
     (if sc \<and> 128 \<le> (of_char c :: int) then of_char c - 256 else of_char c)"

text \<open>\<open>hexDigitToValue\<close>: three ranges, no validation of the digit.\<close>

definition hexDigitToValue :: "bool \<Rightarrow> char \<Rightarrow> char" where
  "hexDigitToValue sc digit =
     (if char_to_int sc digit \<le> char_to_int sc CHR ''9'' then
        char_of (char_to_int sc digit - char_to_int sc CHR ''0'')
      else if char_to_int sc digit \<le> char_to_int sc CHR ''Z'' then
        char_of (char_to_int sc digit - (char_to_int sc CHR ''A'' - 10))
      else
        char_of (char_to_int sc digit - (char_to_int sc CHR ''a'' - 10)))"

text \<open>
  \<open>encoded[i]\<close> on a \<open>std::string\<close>: reading at an index that is not below the size
  is the failure \<open>None\<close> here, so that an out-of-range read of the decoder would show
  as the result \<open>None\<close>.
\<close>

definition at :: "string \<Rightarrow> nat \<Rightarrow> char option" where
  "at s i = (if i < length s then Some (s ! i) else None)"

text \<open>
  \<open>(v1 << 4) | v2\<close>, computed on the promoted values and stored as a \<open>char\<close>.
  The shift of a negative value is that of its two's complement representation.
\<close>

definition combine :: "bool \<Rightarrow> char \<Rightarrow> char \<Rightarrow> char" where
  "combine sc v1 v2 = char_of (push_bit 4 (char_to_int sc v1) OR char_to_int sc v2)"

text \<open>
  The \<open>for\<close> loop of \<open>decodeURL\<close>: \<open>i\<close> is the loop index, \<open>decoded\<close> the output
  built so far. The two \<open>++i\<close> inside the body and the one of the loop header make the
  index advance by three after an escape.
\<close>

function decodeLoop :: "bool \<Rightarrow> string \<Rightarrow> nat \<Rightarrow> string \<Rightarrow> string option" where
  "decodeLoop sc encoded i decoded =
     (if i < length encoded then
        (case at encoded i of
           None \<Rightarrow> None
         | Some c \<Rightarrow>
             if c = CHR ''%'' \<and> i + 2 < length encoded then
               (case at encoded (i + 1) of
                  None \<Rightarrow> None
                | Some d1 \<Rightarrow>
                    (case at encoded (i + 2) of
                       None \<Rightarrow> None
                     | Some d2 \<Rightarrow>
                         decodeLoop sc encoded (i + 3)
                           (decoded @ [combine sc (hexDigitToValue sc d1) (hexDigitToValue sc d2)])))
             else decodeLoop sc encoded (i + 1) (decoded @ [c]))
      else Some decoded)"
  by pat_completeness auto
termination
  by (relation "measure (\<lambda>(sc, encoded, i, decoded). length encoded - i)") auto

declare decodeLoop.simps [simp del]

definition decodeURL :: "bool \<Rightarrow> string \<Rightarrow> string option" where
  "decodeURL sc encoded =
     (if CHR ''%'' \<notin> set encoded then Some encoded
      else decodeLoop sc encoded 0 [])"

text \<open>
  The meaning of a hexadecimal digit, as a table, and the shape of an input that the
  scan of \<open>decodeURL\<close> consumes exactly: a sequence of whole tokens, each either one
  character other than \<open>%\<close> or a \<open>%\<close> with the two characters after it.
\<close>

definition isHexDigit :: "char \<Rightarrow> bool" where
  "isHexDigit c = (c \<in> set ''0123456789ABCDEFabcdef'')"

definition hexTable :: "(char \<times> nat) list" where
  "hexTable =
     [(CHR ''0'', 0), (CHR ''1'', 1), (CHR ''2'', 2), (CHR ''3'', 3), (CHR ''4'', 4),
      (CHR ''5'', 5), (CHR ''6'', 6), (CHR ''7'', 7), (CHR ''8'', 8), (CHR ''9'', 9),
      (CHR ''A'', 10), (CHR ''B'', 11), (CHR ''C'', 12), (CHR ''D'', 13), (CHR ''E'', 14),
      (CHR ''F'', 15),
      (CHR ''a'', 10), (CHR ''b'', 11), (CHR ''c'', 12), (CHR ''d'', 13), (CHR ''e'', 14),
      (CHR ''f'', 15)]"

definition hexValue :: "char \<Rightarrow> nat" where
  "hexValue c = (case map_of hexTable c of Some v \<Rightarrow> v | None \<Rightarrow> 0)"

fun wholeTokens :: "string \<Rightarrow> bool" where
  "wholeTokens [] = True"
| "wholeTokens (c # cs) =
     (if c = CHR ''%'' then 2 \<le> length cs \<and> wholeTokens (drop 2 cs) else wholeTokens cs)"

text \<open>What the loop appends to its output for the part of the input still to be read.\<close>

fun scanFrom :: "bool \<Rightarrow> string \<Rightarrow> string" where
  "scanFrom sc [] = []"
| "scanFrom sc (c # cs) =
     (if c = CHR ''%'' \<and> 2 \<le> length cs then
        combine sc (hexDigitToValue sc (cs ! 0)) (hexDigitToValue sc (cs ! 1))
          # scanFrom sc (drop 2 cs)
      else c # scanFrom sc cs)"

section \<open>Values, stream cells and deferred events\<close>

type_synonym nativeint = int
type_synonym byte = "8 word"

text \<open>
  A \<open>VM\<close> handle is modelled by the identifier of the \<open>BoostVM\<close> it belongs to;
  \<open>BoostVM::forVM\<close> is the lookup \<open>forVM\<close> below. Times (reference time, timer
  expiry) are integers, in milliseconds. A \<open>nativeint\<close> is taken without bound: the
  counter of identifiers does not wrap around.
\<close>

type_synonym VM = nativeint
type_synonym time = int

text \<open>
  The Oz values that this file builds. \<open>bootUnpickle\<close> belongs to the VM core and is
  kept uninterpreted: the value unpickled from a buffer is \<open>OzUnpickled\<close> of that
  buffer. \<open>OzTuple l n\<close> is \<open>buildTuple(vm, l, n)\<close>.
\<close>

datatype ozvalue = OzTuple string nativeint | OzUnpickled "byte list" | OzValue nat

text \<open>
  The nodes a stream is made of: a read-only variable that is not bound yet (the open
  tail), a cons cell holding a value and the address of the next node, or nil. A node is
  addressed by its index in the VM's store, a \<open>StableNode*\<close> is such an index and
  \<open>nullptr\<close> is \<open>None\<close>.
\<close>

datatype node = ReadOnlyVariable | OzCons ozvalue nat | OzNil

text \<open>
  The closures that this file posts with \<open>postVMEvent\<close>, each run on the VM in whose
  queue it sits: \<open>this->terminate()\<close> (posted by \<open>requestTermination\<close>),
  \<open>receiveOnVMPort(buildTuple(vm, "terminated", deadVM))\<close> (posted by \<open>tellMonitors\<close>)
  and \<open>receiveOnVMPort(buffer)\<close> (posted by \<open>sendToVMPort\<close>).
\<close>

datatype vmEvent = EvTerminate | EvReceiveTerminated nativeint | EvReceiveBuffer "byte list"

datatype nextInvoke = recNeverInvokeAgain | recInvokeAgainNow | recInvokeAgainLater

datatype error_code = success | operation_aborted | other_error

text \<open>The errors raised with \<open>raiseError\<close>, named as the specification names them.\<close>

datatype error =
    StreamAlreadyRequested  \<comment> \<open>"VM.stream can only be called once, otherwise it would leak"\<close>
  | UnknownIsolate nativeint  \<comment> \<open>"Invalid VM identifier: "\<close>
  | PicklePackNotFound  \<comment> \<open>"Could not find property pickle.pack"\<close>

text \<open>
  A \<open>boost::asio::deadline_timer\<close>: its expiry time and whether a handler set with
  \<open>async_wait\<close> is pending.
\<close>

record deadline_timer =
  expires_at :: time
  waiting :: bool

text \<open>
  Two fields record what was done and are read by no function: \<open>effectLog\<close> lists the
  side effects of termination in the order they were performed, \<open>invoked\<close> lists the
  callbacks that the loop of \<open>run\<close> has invoked, oldest first.
\<close>

datatype effect = ClosedStream | PostedTerminated VM | DeletedWork

record BoostVM =
  vmIdentifier :: nativeint  \<comment> \<open>the member \<open>identifier\<close>\<close>
  asyncIONodeCount :: int
  terminated :: bool
  store :: "node list"
  stream :: "nat option"
  headOfStream :: "nat option"
  vmEventsCallbacks :: "vmEvent list"
  monitors :: "VM list"
  work :: bool
  preemptionTimer :: deadline_timer
  alarmTimer :: deadline_timer
  referenceTime :: time
  preemptRequested :: bool
  effectLog :: "effect list"
  invoked :: "vmEvent list"

text \<open>
  The constructor \<open>BoostVM::BoostVM\<close>: the counter is zero, the flag is unset, the
  keep-alive \<open>work\<close> object is allocated, and \<open>_stream\<close> and \<open>_headOfStream\<close> both
  point to one fresh read-only variable.
\<close>

definition newBoostVM :: "nativeint \<Rightarrow> BoostVM" where
  "newBoostVM ident =
     \<lparr>vmIdentifier = ident, asyncIONodeCount = 0, terminated = False,
      store = [ReadOnlyVariable], stream = Some 0, headOfStream = Some 0,
      vmEventsCallbacks = [], monitors = [], work = True,
      preemptionTimer = \<lparr>expires_at = 0, waiting = False\<rparr>,
      alarmTimer = \<lparr>expires_at = 0, waiting = False\<rparr>,
      referenceTime = 0, preemptRequested = False, effectLog = [], invoked = []\<rparr>"

section \<open>The stream of a VM\<close>

definition streamAsked :: "BoostVM \<Rightarrow> bool" where
  "streamAsked v = (headOfStream v = None)"

definition portClosed :: "BoostVM \<Rightarrow> bool" where
  "portClosed v = (stream v = None)"

definition getStream :: "BoostVM \<Rightarrow> error + (nat \<times> BoostVM)" where
  "getStream v =
     (case headOfStream v of
        None \<Rightarrow> Inl StreamAlreadyRequested
      | Some h \<Rightarrow>
          Inr (h, v\<lparr>asyncIONodeCount := asyncIONodeCount v + 1, headOfStream := None\<rparr>))"

definition closeStream :: "BoostVM \<Rightarrow> BoostVM" where
  "closeStream v =
     (if streamAsked v \<and> \<not> portClosed v then
        v\<lparr>asyncIONodeCount := asyncIONodeCount v - 1,
          store := (store v)[the (stream v) := OzNil],
          stream := None,
          effectLog := effectLog v @ [ClosedStream]\<rparr>
      else v)"

text \<open>
  Modelled from the spec: \<open>sendToReadOnlyStream\<close> is defined in the VM core, not in
  this file. The specification of \<open>append\<close> says that it "resolves the current open
  tail to a new cell \<open>[value, newOpenTail]\<close>": a fresh read-only variable is allocated at
  the end of the store, the old tail is bound to a cons cell of the value and the fresh
  variable, and \<open>_stream\<close> moves to the fresh variable.
\<close>

definition sendToReadOnlyStream :: "BoostVM \<Rightarrow> nat \<Rightarrow> ozvalue \<Rightarrow> BoostVM" where
  "sendToReadOnlyStream v s val =
     v\<lparr>store := (store v)[s := OzCons val (length (store v))] @ [ReadOnlyVariable],
       stream := Some (length (store v))\<rparr>"

text \<open>The two overloads of \<open>receiveOnVMPort\<close>: for a value and for a pickled buffer.\<close>

definition receiveOnVMPort :: "BoostVM \<Rightarrow> ozvalue \<Rightarrow> BoostVM" where
  "receiveOnVMPort v val =
     (case stream v of
        None \<Rightarrow> v
      | Some s \<Rightarrow> sendToReadOnlyStream v s val)"

definition receiveOnVMPortBuffer :: "BoostVM \<Rightarrow> byte list \<Rightarrow> BoostVM" where
  "receiveOnVMPortBuffer v buffer =
     (case stream v of
        None \<Rightarrow> v
      | Some s \<Rightarrow> sendToReadOnlyStream v s (OzUnpickled buffer))"

definition isRunning :: "BoostVM \<Rightarrow> bool" where
  "isRunning v = (\<not> terminated v)"

text \<open>
  What a holder of the reference \<open>r\<close> reads: \<open>streamFrom st r vals t\<close> holds when
  following the cons cells of the store \<open>st\<close> from \<open>r\<close> yields the values \<open>vals\<close>,
  in this order, and arrives at the node \<open>t\<close>.
\<close>

fun streamFrom :: "node list \<Rightarrow> nat \<Rightarrow> ozvalue list \<Rightarrow> nat \<Rightarrow> bool" where
  "streamFrom st r [] t = (r = t)"
| "streamFrom st r (x # xs) t =
     (r < length st \<and>
      (case st ! r of OzCons y n \<Rightarrow> y = x \<and> streamFrom st n xs t | _ \<Rightarrow> False))"

text \<open>The tail \<open>_stream\<close> of an open stream is an unbound read-only variable of the store.\<close>

definition openTail :: "BoostVM \<Rightarrow> bool" where
  "openTail v =
     (case stream v of
        None \<Rightarrow> False
      | Some t \<Rightarrow> t < length (store v) \<and> store v ! t = ReadOnlyVariable)"

text \<open>
  The calls that reach the stream of one VM, in any order: a value or a buffer received
  on the port, \<open>closeStream\<close>, and \<open>getStream\<close>, whose exception leaves the VM as it
  was.
\<close>

datatype streamOp = Receive ozvalue | ReceiveBuffer "byte list" | Close | Ask

fun applyOp :: "streamOp \<Rightarrow> BoostVM \<Rightarrow> BoostVM" where
  "applyOp (Receive x) v = receiveOnVMPort v x"
| "applyOp (ReceiveBuffer b) v = receiveOnVMPortBuffer v b"
| "applyOp Close v = closeStream v"
| "applyOp Ask v = (case getStream v of Inl e \<Rightarrow> v | Inr (r, v') \<Rightarrow> v')"

fun applyOps :: "streamOp list \<Rightarrow> BoostVM \<Rightarrow> BoostVM" where
  "applyOps [] v = v"
| "applyOps (op # ops) v = applyOps ops (applyOp op v)"

section \<open>The preemption timer\<close>

text \<open>
  \<open>onPreemptionTimerExpire\<close>, with the value \<open>now\<close> that \<open>env.getReferenceTime()\<close>
  returns when the handler runs. \<open>setReferenceTime\<close> and \<open>requestPreempt\<close> belong to
  the VM core; they store the time and raise the flag that the interpreter polls.
\<close>

definition onPreemptionTimerExpire :: "error_code \<Rightarrow> time \<Rightarrow> BoostVM \<Rightarrow> BoostVM" where
  "onPreemptionTimerExpire err now v =
     (if err \<noteq> operation_aborted then
        v\<lparr>referenceTime := now,
          preemptRequested := True,
          preemptionTimer :=
            \<lparr>expires_at = expires_at (preemptionTimer v) + 1, waiting = True\<rparr>\<rparr>
      else v)"

text \<open>The timer firing once for each of the given times, without being cancelled.\<close>

fun firings :: "time list \<Rightarrow> BoostVM \<Rightarrow> BoostVM" where
  "firings [] v = v"
| "firings (now # nows) v = firings nows (onPreemptionTimerExpire success now v)"

section \<open>The environment\<close>

text \<open>
  \<open>vms\<close> is the \<open>std::forward_list\<close> of the environment, front first. \<open>exited\<close>
  is \<open>Some c\<close> once \<open>std::exit\<close> has been called, \<open>c\<close> being the \<open>int\<close> that
  \<open>std::exit\<close> received.
\<close>

record BoostEnvironment =
  vms :: "BoostVM list"
  nextVMIdentifier :: nativeint
  aliveVMs :: int
  exited :: "int option"

definition newBoostEnvironment :: BoostEnvironment where
  "newBoostEnvironment = \<lparr>vms = [], nextVMIdentifier = 1, aliveVMs = 0, exited = None\<rparr>"

definition forVM :: "BoostEnvironment \<Rightarrow> VM \<Rightarrow> BoostVM option" where
  "forVM env h = find (\<lambda>v. vmIdentifier v = h) (vms env)"

text \<open>A member function called on \<open>BoostVM::forVM(h)\<close>, changing that VM in place.\<close>

definition onVM :: "VM \<Rightarrow> (BoostVM \<Rightarrow> BoostVM) \<Rightarrow> BoostEnvironment \<Rightarrow> BoostEnvironment" where
  "onVM h f env = env\<lparr>vms := map (\<lambda>v. if vmIdentifier v = h then f v else v) (vms env)\<rparr>"

definition addVM :: "BoostEnvironment \<Rightarrow> string \<Rightarrow> bool \<Rightarrow> BoostEnvironment" where
  "addVM env app isURL =
     env\<lparr>vms := newBoostVM (nextVMIdentifier env) # vms env,
         nextVMIdentifier := nextVMIdentifier env + 1,
         aliveVMs := aliveVMs env + 1\<rparr>"

text \<open>The loop of \<open>getVM\<close> over the list, and the error raised after it.\<close>

fun scanVMs :: "BoostVM list \<Rightarrow> nativeint \<Rightarrow> BoostVM option" where
  "scanVMs [] ident = None"
| "scanVMs (vm # rest) ident = (if vmIdentifier vm = ident then Some vm else scanVMs rest ident)"

definition getVM :: "BoostEnvironment \<Rightarrow> nativeint \<Rightarrow> error + BoostVM" where
  "getVM env ident =
     (case scanVMs (vms env) ident of
        Some vm \<Rightarrow> Inr vm
      | None \<Rightarrow> Inl (UnknownIsolate ident))"

text \<open>The loop of \<open>listVMs\<close>: \<open>list\<close> is the Oz list built so far.\<close>

fun listLoop :: "BoostVM list \<Rightarrow> nativeint list \<Rightarrow> nativeint list" where
  "listLoop [] list = list"
| "listLoop (boostVM # rest) list =
     listLoop rest (if isRunning boostVM then vmIdentifier boostVM # list else list)"

definition listVMs :: "BoostEnvironment \<Rightarrow> nativeint list" where
  "listVMs env = listLoop (vms env) []"

text \<open>
  Modelled from the spec: \<open>postVMEvent\<close> is defined in the header, not in this file.
  The specification says that a deferred job is enqueued "on the target isolate's
  deferred-event queue" and that the queue is first-in, first-out: the event is put at
  the back of the queue of the target.
\<close>

definition postVMEvent :: "VM \<Rightarrow> vmEvent \<Rightarrow> BoostEnvironment \<Rightarrow> BoostEnvironment" where
  "postVMEvent h ev env =
     onVM h (\<lambda>v. v\<lparr>vmEventsCallbacks := vmEventsCallbacks v @ [ev]\<rparr>) env"

definition requestTermination :: "VM \<Rightarrow> BoostEnvironment \<Rightarrow> BoostEnvironment" where
  "requestTermination h env = postVMEvent h EvTerminate env"

definition addMonitor :: "VM \<Rightarrow> VM \<Rightarrow> BoostEnvironment \<Rightarrow> BoostEnvironment" where
  "addMonitor h monitor env = onVM h (\<lambda>v. v\<lparr>monitors := monitors v @ [monitor]\<rparr>) env"

text \<open>The loop of \<open>tellMonitors\<close> over \<open>_monitors\<close>, for the dead VM \<open>h\<close>.\<close>

fun tellLoop :: "VM \<Rightarrow> VM list \<Rightarrow> BoostEnvironment \<Rightarrow> BoostEnvironment" where
  "tellLoop h [] env = env"
| "tellLoop h (vm # rest) env =
     tellLoop h rest
       (onVM h (\<lambda>v. v\<lparr>effectLog := effectLog v @ [PostedTerminated vm]\<rparr>)
          (postVMEvent vm (EvReceiveTerminated h) env))"

definition tellMonitors :: "VM \<Rightarrow> BoostEnvironment \<Rightarrow> BoostEnvironment" where
  "tellMonitors h env =
     (case forVM env h of
        None \<Rightarrow> env
      | Some v \<Rightarrow> tellLoop h (monitors v) env)"

definition terminate :: "VM \<Rightarrow> BoostEnvironment \<Rightarrow> BoostEnvironment" where
  "terminate h env =
     (case forVM env h of
        None \<Rightarrow> env
      | Some v \<Rightarrow>
          if \<not> terminated v then
            onVM h (\<lambda>v. v\<lparr>work := False, effectLog := effectLog v @ [DeletedWork]\<rparr>)
              (tellMonitors h
                (onVM h closeStream
                  (onVM h (\<lambda>v. v\<lparr>terminated := True\<rparr>) env)))
          else env)"

text \<open>
  \<open>std::exit\<close> takes an \<open>int\<close>, of 32 bits, and \<open>killVM\<close> passes it a
  \<open>nativeint\<close>, of 64 bits: the conversion keeps the low 32 bits, read as a two's
  complement number.
\<close>

definition toInt :: "nativeint \<Rightarrow> int" where
  "toInt n = sint (word_of_int n :: 32 word)"

definition killVM :: "BoostEnvironment \<Rightarrow> VM \<Rightarrow> nativeint \<Rightarrow> BoostEnvironment" where
  "killVM env h exitCode =
     (case forVM env h of
        None \<Rightarrow> env
      | Some v \<Rightarrow>
          if isRunning v then
            (let env' = (requestTermination h env)\<lparr>aliveVMs := aliveVMs env - 1\<rparr>
             in if aliveVMs env' = 0 then env'\<lparr>exited := Some (toInt exitCode)\<rparr> else env')
          else env)"

text \<open>
  \<open>sendToVMPort\<close>. \<open>pack\<close> is what the look-up of the property \<open>pickle.pack\<close> in the
  sender's registry finds (\<open>None\<close>: not found), applied to the value to get the bytes of
  the buffer.
\<close>

definition sendToVMPort ::
  "BoostEnvironment \<Rightarrow> (ozvalue \<Rightarrow> byte list) option \<Rightarrow> VM \<Rightarrow> ozvalue \<Rightarrow> error + BoostEnvironment"
where
  "sendToVMPort env pack to val =
     (case forVM env to of
        None \<Rightarrow> Inr env
      | Some target \<Rightarrow>
          if portClosed target then Inr env
          else
            (case pack of
               None \<Rightarrow> Inl PicklePackNotFound
             | Some picklePack \<Rightarrow> Inr (postVMEvent to (EvReceiveBuffer (picklePack val)) env)))"

section \<open>The loop of \<open>run\<close>\<close>

text \<open>Running one callback of the queue of the VM \<open>h\<close>.\<close>

definition runEvent :: "VM \<Rightarrow> vmEvent \<Rightarrow> BoostEnvironment \<Rightarrow> BoostEnvironment" where
  "runEvent h ev env =
     (case ev of
        EvTerminate \<Rightarrow> terminate h env
      | EvReceiveTerminated deadVM \<Rightarrow>
          onVM h (\<lambda>v. receiveOnVMPort v (OzTuple ''terminated'' deadVM)) env
      | EvReceiveBuffer buffer \<Rightarrow> onVM h (\<lambda>v. receiveOnVMPortBuffer v buffer) env)"

text \<open>
  One turn of the inner \<open>while\<close> loop: \<open>_vmEventsCallbacks.front()()\<close>, then
  \<open>_vmEventsCallbacks.pop()\<close>.
\<close>

definition invokeFront :: "VM \<Rightarrow> vmEvent \<Rightarrow> BoostEnvironment \<Rightarrow> BoostEnvironment" where
  "invokeFront h ev env =
     onVM h (\<lambda>v. v\<lparr>vmEventsCallbacks := tl (vmEventsCallbacks v)\<rparr>)
       (runEvent h ev (onVM h (\<lambda>v. v\<lparr>invoked := invoked v @ [ev]\<rparr>) env))"

subsection \<open>One VM of the environment, before and after an operation\<close>

lemma forVM_ident: "forVM env h = Some v \<Longrightarrow> vmIdentifier v = h"
  by (auto simp: forVM_def find_Some_iff)

lemma find_map_upd:
  assumes "\<And>v. vmIdentifier (f v) = vmIdentifier v"
  shows "find (\<lambda>v. vmIdentifier v = h) (map (\<lambda>v. if vmIdentifier v = k then f v else v) xs)
         = (if h = k then map_option f (find (\<lambda>v. vmIdentifier v = h) xs)
            else find (\<lambda>v. vmIdentifier v = h) xs)"
  using assms by (induction xs) auto

lemma forVM_onVM:
  assumes "\<And>v. vmIdentifier (f v) = vmIdentifier v"
  shows "forVM (onVM k f env) h = (if h = k then map_option f (forVM env h) else forVM env h)"
  using find_map_upd [OF assms] by (simp add: forVM_def onVM_def)

lemma forVM_postVMEvent:
  "forVM (postVMEvent k ev env) h =
     (if h = k then map_option (\<lambda>v. v\<lparr>vmEventsCallbacks := vmEventsCallbacks v @ [ev]\<rparr>) (forVM env h)
      else forVM env h)"
  unfolding postVMEvent_def by (rule forVM_onVM) simp

text \<open>
  What the loop of \<open>tellMonitors\<close> for the dead VM \<open>h\<close> over the monitors \<open>ms\<close>
  does to the VM \<open>k\<close>: one event at the back of its queue for each time it is listed
  and, for the dead VM itself, the record of every post.
\<close>

definition told :: "VM \<Rightarrow> VM \<Rightarrow> VM list \<Rightarrow> BoostVM \<Rightarrow> BoostVM" where
  "told h k ms v =
     v\<lparr>vmEventsCallbacks := vmEventsCallbacks v @ replicate (count_list ms k) (EvReceiveTerminated h),
       effectLog := effectLog v @ (if k = h then map PostedTerminated ms else [])\<rparr>"

lemma told_Nil: "told h k [] v = v"
  by (simp add: told_def)

lemma forVM_tellLoop:
  "forVM (tellLoop h ms env) k = map_option (told h k ms) (forVM env k)"
proof (induction ms arbitrary: env)
  case Nil
  show ?case by (cases "forVM env k") (simp_all add: told_Nil)
next
  case (Cons m ms)
  have step: "forVM (onVM h (\<lambda>v. v\<lparr>effectLog := effectLog v @ [PostedTerminated m]\<rparr>)
          (postVMEvent m (EvReceiveTerminated h) env)) k
        = map_option (told h k [m]) (forVM env k)"
    by (cases "forVM env k") (auto simp: forVM_onVM forVM_postVMEvent told_def)
  have comp: "told h k ms (told h k [m] v) = told h k (m # ms) v" for v
    by (simp add: told_def replicate_add [symmetric])
  show ?case
    by (simp add: Cons.IH step option.map_comp comp comp_def)
qed


lemma vmIdentifier_closeStream [simp]: "vmIdentifier (closeStream v) = vmIdentifier v"
  by (simp add: closeStream_def split: option.splits)

lemma vmIdentifier_receive [simp]:
  "vmIdentifier (receiveOnVMPort v x) = vmIdentifier v"
  "vmIdentifier (receiveOnVMPortBuffer v b) = vmIdentifier v"
  by (simp_all add: receiveOnVMPort_def receiveOnVMPortBuffer_def sendToReadOnlyStream_def
      split: option.splits)

lemma monitors_closeStream [simp]: "monitors (closeStream v) = monitors v"
  by (simp add: closeStream_def split: option.splits)

text \<open>What \<open>terminate\<close> makes of a running VM \<open>h\<close>.\<close>

definition terminatedVM :: "VM \<Rightarrow> BoostVM \<Rightarrow> BoostVM" where
  "terminatedVM h v =
     (let w = told h h (monitors v) (closeStream (v\<lparr>terminated := True\<rparr>))
      in w\<lparr>work := False, effectLog := effectLog w @ [DeletedWork]\<rparr>)"

lemma forVM_terminate:
  assumes "forVM env h = Some v"
  shows "forVM (terminate h env) k =
     (if terminated v then forVM env k
      else if k = h then Some (terminatedVM h v)
      else map_option (told h k (monitors v)) (forVM env k))"
proof (cases "terminated v")
  case True
  with assms show ?thesis by (simp add: terminate_def)
next
  case False
  let ?e1 = "onVM h closeStream (onVM h (\<lambda>v. v\<lparr>terminated := True\<rparr>) env)"
  have e1h: "forVM ?e1 h = Some (closeStream (v\<lparr>terminated := True\<rparr>))"
    using assms by (simp add: forVM_onVM)
  have e1k: "forVM ?e1 k = forVM env k" if "k \<noteq> h"
    using that by (simp add: forVM_onVM)
  have tm: "tellMonitors h ?e1 = tellLoop h (monitors v) ?e1"
    by (simp add: tellMonitors_def e1h)
  have "terminate h env =
      onVM h (\<lambda>v. v\<lparr>work := False, effectLog := effectLog v @ [DeletedWork]\<rparr>)
        (tellLoop h (monitors v) ?e1)"
    using assms False by (simp add: terminate_def tm)
  then show ?thesis
    using False e1h e1k
    by (auto simp: forVM_onVM forVM_tellLoop terminatedVM_def Let_def)
qed

text \<open>
  The callbacks still to run from the queue of \<open>h\<close>: those queued, and those that the
  termination of \<open>h\<close> would still post to its own queue.
\<close>

definition pendingWork :: "VM \<Rightarrow> BoostEnvironment \<Rightarrow> nat" where
  "pendingWork h env =
     (case forVM env h of
        None \<Rightarrow> 0
      | Some v \<Rightarrow> length (vmEventsCallbacks v)
                  + (if terminated v then 0 else count_list (monitors v) h))"

lemma queue_closeStream [simp]: "vmEventsCallbacks (closeStream v) = vmEventsCallbacks v"
  by (simp add: closeStream_def split: option.splits)

lemma terminated_closeStream [simp]: "terminated (closeStream v) = terminated v"
  by (simp add: closeStream_def split: option.splits)

lemma receive_fields [simp]:
  "vmEventsCallbacks (receiveOnVMPort v x) = vmEventsCallbacks v"
  "vmEventsCallbacks (receiveOnVMPortBuffer v b) = vmEventsCallbacks v"
  "terminated (receiveOnVMPort v x) = terminated v"
  "terminated (receiveOnVMPortBuffer v b) = terminated v"
  "monitors (receiveOnVMPort v x) = monitors v"
  "monitors (receiveOnVMPortBuffer v b) = monitors v"
  by (simp_all add: receiveOnVMPort_def receiveOnVMPortBuffer_def sendToReadOnlyStream_def
      split: option.splits)

text \<open>What a callback run from the queue of \<open>h\<close> does to \<open>h\<close> itself.\<close>

definition eventOnSelf :: "VM \<Rightarrow> vmEvent \<Rightarrow> BoostVM \<Rightarrow> BoostVM" where
  "eventOnSelf h ev v =
     (case ev of
        EvTerminate \<Rightarrow> if terminated v then v else terminatedVM h v
      | EvReceiveTerminated deadVM \<Rightarrow> receiveOnVMPort v (OzTuple ''terminated'' deadVM)
      | EvReceiveBuffer buffer \<Rightarrow> receiveOnVMPortBuffer v buffer)"

lemma forVM_runEvent_self:
  assumes "forVM env h = Some v"
  shows "forVM (runEvent h ev env) h = Some (eventOnSelf h ev v)"
  using assms
  by (cases ev) (simp_all add: runEvent_def eventOnSelf_def forVM_terminate [OF assms] forVM_onVM)

lemma forVM_invokeFront_self:
  assumes "forVM env h = Some v"
  shows "forVM (invokeFront h ev env) h =
    Some ((eventOnSelf h ev (v\<lparr>invoked := invoked v @ [ev]\<rparr>))
            \<lparr>vmEventsCallbacks :=
               tl (vmEventsCallbacks (eventOnSelf h ev (v\<lparr>invoked := invoked v @ [ev]\<rparr>)))\<rparr>)"
proof -
  have "forVM (onVM h (\<lambda>v. v\<lparr>invoked := invoked v @ [ev]\<rparr>) env) h
          = Some (v\<lparr>invoked := invoked v @ [ev]\<rparr>)"
    using assms by (simp add: forVM_onVM)
  then show ?thesis
    by (simp add: invokeFront_def forVM_onVM forVM_runEvent_self)
qed

lemma pendingWork_invokeFront:
  assumes "forVM env h = Some v" "vmEventsCallbacks v = ev # rest"
  shows "pendingWork h (invokeFront h ev env) < pendingWork h env"
  using assms
  by (cases ev)
     (simp_all add: pendingWork_def forVM_invokeFront_self eventOnSelf_def terminatedVM_def
        told_def Let_def)

subsection \<open>The loop body\<close>

text \<open>
  The inner loop \<open>while (!_vmEventsCallbacks.empty())\<close>, returning the value of
  \<open>nextInvoke\<close> after it. A callback may post to the queue it is run from
  (\<open>terminate\<close> does, when a VM monitors itself); \<open>pendingWork\<close> bounds the turns.
\<close>

function drain :: "VM \<Rightarrow> nextInvoke \<Rightarrow> BoostEnvironment \<Rightarrow> nextInvoke \<times> BoostEnvironment" where
  "drain h nextInvoke env =
     (case forVM env h of
        None \<Rightarrow> (nextInvoke, env)
      | Some v \<Rightarrow>
          (case vmEventsCallbacks v of
             [] \<Rightarrow> (nextInvoke, env)
           | ev # rest \<Rightarrow> drain h recInvokeAgainNow (invokeFront h ev env)))"
  by pat_completeness auto
termination
  by (relation "measure (\<lambda>(h, nextInvoke, env). pendingWork h env)")
     (auto simp: pendingWork_invokeFront)


text \<open>
  The block of \<open>run\<close> that holds the lock on the queue, after the interpreter step has
  returned \<open>nextInvokePair\<close>. Its outcome: \<open>Terminating\<close> for the \<open>break\<close>,
  \<open>AwaitingWork\<close> when it reaches \<open>_conditionWorkToDoInVM.wait(lock)\<close>, having set
  the alarm timer first if the VM asked to be invoked later, and \<open>Stepping\<close> when it
  leaves the block without waiting.
\<close>

datatype loopState = Stepping | AwaitingWork | Terminating

definition lockedBlock ::
  "VM \<Rightarrow> nextInvoke \<times> time \<Rightarrow> BoostEnvironment \<Rightarrow> loopState \<times> BoostEnvironment" where
  "lockedBlock h nextInvokePair env =
     (case forVM env h of
        None \<Rightarrow> (Terminating, env)
      | Some v \<Rightarrow>
          if \<not> isRunning v \<or>
             (fst nextInvokePair = recNeverInvokeAgain \<and> asyncIONodeCount v = 0
                \<and> vmEventsCallbacks v = [])
          then (Terminating, env)
          else
            (case drain h (fst nextInvokePair) env of
               (nextInvoke, env') \<Rightarrow>
                 if nextInvoke \<noteq> recInvokeAgainNow then
                   (AwaitingWork,
                    if nextInvoke = recInvokeAgainLater then
                      onVM h (\<lambda>v. v\<lparr>alarmTimer :=
                                \<lparr>expires_at = snd nextInvokePair, waiting = True\<rparr>\<rparr>) env'
                    else env')
                 else (Stepping, env')))"

text \<open>
  Where the thread of \<open>run\<close> stands: at the head of the outer loop, inside
  \<open>vm->run()\<close>, blocked in \<open>wait\<close>, or returned from \<open>run\<close> (after the
  \<open>break\<close> and \<open>terminate()\<close>).
  \<open>iteration\<close> is one pass from the head of the loop, with the reference time
  \<open>now\<close> and the pair returned by \<open>vm->run()\<close>, for a \<open>vm->run()\<close> during
  which nothing touches the VM: it ends at the head of the loop again (after
  \<open>alarmTimer.cancel()\<close>), in \<open>wait\<close>, or with the return of \<open>run\<close>.
  \<open>armed\<close> is what comes before the block that holds the lock: the reference time
  is set, the preemption timer is set to expire a millisecond later and, once
  \<open>vm->run()\<close> has returned, cancelled.
\<close>

datatype pc = AtLoopHead | InRun | Waiting | Returned

definition cancelAlarm :: "VM \<Rightarrow> BoostEnvironment \<Rightarrow> BoostEnvironment" where
  "cancelAlarm h env = onVM h (\<lambda>v. v\<lparr>alarmTimer := (alarmTimer v)\<lparr>waiting := False\<rparr>\<rparr>) env"

definition armed :: "VM \<Rightarrow> time \<Rightarrow> BoostEnvironment \<Rightarrow> BoostEnvironment" where
  "armed h now env =
     onVM h (\<lambda>v. v\<lparr>preemptionTimer := (preemptionTimer v)\<lparr>waiting := False\<rparr>\<rparr>)
       (onVM h (\<lambda>v. v\<lparr>referenceTime := now,
                       preemptionTimer := \<lparr>expires_at = now + 1, waiting = True\<rparr>\<rparr>) env)"

definition iteration ::
  "VM \<Rightarrow> time \<Rightarrow> nextInvoke \<times> time \<Rightarrow> BoostEnvironment \<Rightarrow> pc \<times> BoostEnvironment" where
  "iteration h now nextInvokePair env =
     (case lockedBlock h nextInvokePair (armed h now env) of
        (Terminating, env3) \<Rightarrow> (Returned, terminate h env3)
      | (AwaitingWork, env3) \<Rightarrow> (Waiting, env3)
      | (Stepping, env3) \<Rightarrow> (AtLoopHead, cancelAlarm h env3))"

text \<open>
  The same pass in two halves, for what happens while \<open>vm->run()\<close> is running.
  \<open>enterRun\<close> is the pass from the head of the loop up to the call of
  \<open>vm->run()\<close>: the reference time is set and the preemption timer is set to expire a
  millisecond later. \<open>leaveRun\<close> is the pass from the return of \<open>vm->run()\<close>, with
  the pair it returned: the preemption timer is cancelled, then comes the block that
  holds the lock and what follows it.
\<close>

definition enterRun :: "VM \<Rightarrow> time \<Rightarrow> BoostEnvironment \<Rightarrow> BoostEnvironment" where
  "enterRun h now env =
     onVM h (\<lambda>v. v\<lparr>referenceTime := now,
                     preemptionTimer := \<lparr>expires_at = now + 1, waiting = True\<rparr>\<rparr>) env"

definition leaveRun ::
  "VM \<Rightarrow> nextInvoke \<times> time \<Rightarrow> BoostEnvironment \<Rightarrow> pc \<times> BoostEnvironment" where
  "leaveRun h nextInvokePair env =
     (case lockedBlock h nextInvokePair
             (onVM h (\<lambda>v. v\<lparr>preemptionTimer := (preemptionTimer v)\<lparr>waiting := False\<rparr>\<rparr>) env) of
        (Terminating, env3) \<Rightarrow> (Returned, terminate h env3)
      | (AwaitingWork, env3) \<Rightarrow> (Waiting, env3)
      | (Stepping, env3) \<Rightarrow> (AtLoopHead, cancelAlarm h env3))"

text \<open>
  What happens to the VM \<open>h\<close>, one action at a time, in any order.
  Its own thread goes from the head of the loop into \<open>vm->run()\<close> (\<open>Enter\<close>),
  comes back from it with the pair it returned and goes through the rest of the pass
  (\<open>Leave\<close>), or wakes up from \<open>wait\<close> and cancels the alarm (\<open>Wake\<close>).
  While \<open>vm->run()\<close> is running the program of the VM asks for its stream
  (\<open>GetStream\<close>, a call of \<open>getStream\<close>, whose exception leaves the VM as it was)
  or closes it (\<open>CloseStream\<close>, a call of \<open>closeStream\<close>).
  At any time the handler of the preemption timer runs (\<open>Expire\<close>, a call of
  \<open>onPreemptionTimerExpire\<close>), and any thread, that of the VM included, calls
  \<open>killVM\<close> for the VM (\<open>Kill\<close>), posts a callback to its queue (\<open>Post\<close>) or
  registers a monitor with it (\<open>Monitor\<close>, a call of \<open>addMonitor\<close>).
  Nothing happens any more once the process has exited.
\<close>

datatype action =
    Enter time | Leave nextInvoke time | Wake | GetStream | CloseStream
  | Expire error_code time | Kill nativeint | Post vmEvent | Monitor VM

fun act :: "VM \<Rightarrow> action \<Rightarrow> pc \<times> BoostEnvironment \<Rightarrow> pc \<times> BoostEnvironment" where
  "act h (Enter now) (p, env) =
     (if p = AtLoopHead then (InRun, enterRun h now env) else (p, env))"
| "act h (Leave nextInvoke t) (p, env) =
     (if p = InRun then leaveRun h (nextInvoke, t) env else (p, env))"
| "act h Wake (p, env) = (if p = Waiting then (AtLoopHead, cancelAlarm h env) else (p, env))"
| "act h GetStream (p, env) =
     (if p = InRun then (p, onVM h (applyOp Ask) env) else (p, env))"
| "act h CloseStream (p, env) =
     (if p = InRun then (p, onVM h closeStream env) else (p, env))"
| "act h (Expire err now) (p, env) = (p, onVM h (onPreemptionTimerExpire err now) env)"
| "act h (Kill exitCode) (p, env) = (p, killVM env h exitCode)"
| "act h (Post ev) (p, env) = (p, postVMEvent h ev env)"
| "act h (Monitor monitor) (p, env) = (p, addMonitor h monitor env)"

fun exec :: "VM \<Rightarrow> action list \<Rightarrow> pc \<times> BoostEnvironment \<Rightarrow> pc \<times> BoostEnvironment" where
  "exec h [] s = s"
| "exec h (a # as) s = (if exited (snd s) \<noteq> None then s else exec h as (act h a s))"

section \<open>The environments that the program builds\<close>

text \<open>
  The identifiers in the list, front first, and the next identifier to be given out.
\<close>

definition allocated :: "BoostEnvironment \<Rightarrow> nativeint list \<times> nativeint" where
  "allocated env = (map vmIdentifier (vms env), nextVMIdentifier env)"

text \<open>
  The environments reached from the constructor by the operations of this file:
  \<open>addVM\<close>, the actions on a VM listed above (among them \<open>killVM\<close> and posting a
  callback), \<open>terminate\<close>, \<open>addMonitor\<close>, \<open>closeStream\<close>, a successful
  \<open>getStream\<close> and a successful \<open>sendToVMPort\<close>.
\<close>

inductive registry :: "BoostEnvironment \<Rightarrow> bool" where
  created: "registry newBoostEnvironment"
| added: "registry env \<Longrightarrow> registry (addVM env app isURL)"
| acted: "registry env \<Longrightarrow> registry (snd (act h a (p, env)))"
| terminated: "registry env \<Longrightarrow> registry (terminate h env)"
| monitored: "registry env \<Longrightarrow> registry (addMonitor h m env)"
| closed: "registry env \<Longrightarrow> registry (onVM h closeStream env)"
| asked: "registry env \<Longrightarrow> forVM env h = Some v \<Longrightarrow> getStream v = Inr (r, v')
          \<Longrightarrow> registry (onVM h (\<lambda>_. v') env)"
| sent: "registry env \<Longrightarrow> sendToVMPort env pack to val = Inr env' \<Longrightarrow> registry env'"

section \<open>What termination does, and what it leaves alone\<close>

text \<open>
  The side effects of \<open>terminate\<close> on a running VM, in the order of the code: the
  stream is closed if it was asked for and is still open, each monitor of the list is
  posted a notification, and the keep-alive \<open>work\<close> object is deleted.
\<close>

definition terminationEffects :: "BoostVM \<Rightarrow> effect list" where
  "terminationEffects v =
     (if streamAsked v \<and> \<not> portClosed v then [ClosedStream] else [])
     @ map PostedTerminated (monitors v) @ [DeletedWork]"

text \<open>
  \<open>calm w w'\<close>: from \<open>w\<close> to \<open>w'\<close> a VM has changed neither its termination
  flag nor its \<open>work\<close> object; monitors have only been added, at the back of the list;
  a stream that was asked for is still asked for and a closed stream is still closed; and
  no side effect has been recorded but, if the stream was closed meanwhile, that one.
  \<open>quiet h env env'\<close>: the VM \<open>h\<close> has changed in that way only, and every other
  VM is as it was.
\<close>

definition calm :: "BoostVM \<Rightarrow> BoostVM \<Rightarrow> bool" where
  "calm w w' =
     (terminated w' = terminated w \<and> work w' = work w
      \<and> (\<exists>ms. monitors w' = monitors w @ ms)
      \<and> (streamAsked w \<longrightarrow> streamAsked w') \<and> (portClosed w \<longrightarrow> portClosed w')
      \<and> effectLog w' = effectLog w @ (if portClosed w' \<and> \<not> portClosed w then [ClosedStream] else []))"

definition quiet :: "VM \<Rightarrow> BoostEnvironment \<Rightarrow> BoostEnvironment \<Rightarrow> bool" where
  "quiet h env env' =
     (\<exists>w w'. forVM env h = Some w \<and> forVM env' h = Some w' \<and> calm w w'
        \<and> (\<forall>k. k \<noteq> h \<longrightarrow> forVM env' k = forVM env k))"

text \<open>
  \<open>died h env env'\<close>: from \<open>env\<close> to \<open>env'\<close> the VM \<open>h\<close>, which was running,
  has terminated, and exactly this has happened. Its flag is set and its \<open>work\<close> object
  is deleted. If its stream had been asked for and was still open, the open tail of the
  stream is bound to nil, \<open>_stream\<close> is null and the counter of pending asynchronous
  operations is one less; otherwise stream, store and counter are as they were. Every VM,
  \<open>h\<close> included, has at the back of its queue one notification of the death of \<open>h\<close>
  for each time it is listed among the monitors of \<open>h\<close>, and is otherwise as it was.
\<close>

definition died :: "VM \<Rightarrow> BoostEnvironment \<Rightarrow> BoostEnvironment \<Rightarrow> bool" where
  "died h env env' =
     (\<exists>w. forVM env h = Some w \<and> \<not> terminated w
        \<and> forVM env' h = Some
             (w\<lparr>terminated := True, work := False,
                asyncIONodeCount :=
                  (if streamAsked w \<and> \<not> portClosed w then asyncIONodeCount w - 1
                   else asyncIONodeCount w),
                store :=
                  (if streamAsked w \<and> \<not> portClosed w then (store w)[the (stream w) := OzNil]
                   else store w),
                stream := (if streamAsked w \<and> \<not> portClosed w then None else stream w),
                vmEventsCallbacks :=
                  vmEventsCallbacks w @ replicate (count_list (monitors w) h) (EvReceiveTerminated h),
                effectLog := effectLog w @ terminationEffects w\<rparr>)
        \<and> (\<forall>k. k \<noteq> h \<longrightarrow>
              forVM env' k =
                map_option
                  (\<lambda>u. u\<lparr>vmEventsCallbacks :=
                           vmEventsCallbacks u
                           @ replicate (count_list (monitors w) k) (EvReceiveTerminated h)\<rparr>)
                  (forVM env k)))"

text \<open>
  \<open>once h env env'\<close>: from \<open>env\<close> to \<open>env'\<close> the VM \<open>h\<close> has terminated at
  most once, and been left alone by termination before and after.
\<close>

definition once :: "VM \<Rightarrow> BoostEnvironment \<Rightarrow> BoostEnvironment \<Rightarrow> bool" where
  "once h env env' =
     (quiet h env env'
      \<or> (\<exists>e1 e2. quiet h env e1 \<and> died h e1 e2 \<and> quiet h e2 env'))"

section \<open>Properties of the percent-decoder\<close>

lemma shift_or_add:
  fixes a b :: int
  assumes "0 \<le> b" "b < 16"
  shows "push_bit 4 a OR b = 16 * a + b"
proof -
  have tb: "take_bit 4 b = b" using assms by (simp add: take_bit_int_eq_self)
  have "push_bit 4 a + b = push_bit 4 a OR b"
  proof (rule disjunctive_add)
    fix n
    show "\<not> bit (push_bit 4 a) n \<or> \<not> bit b n"
    proof (cases "n < 4")
      case True then show ?thesis by (simp add: bit_push_bit_iff)
    next
      case False
      have "bit b n = bit (take_bit 4 b) n" by (simp add: tb)
      then show ?thesis using False by (simp add: bit_take_bit_iff)
    qed
  qed
  then show ?thesis by (simp add: push_bit_eq_mult)
qed

lemma hexDigitToValue_hex:
  "isHexDigit X \<Longrightarrow> hexDigitToValue sc X = char_of (int (hexValue X)) \<and> hexValue X < 16"
  unfolding isHexDigit_def
  apply (cases sc)
  apply (simp_all only: insert_iff empty_iff list.set String.implode_def)
  apply (elim disjE; simp add: hexDigitToValue_def char_to_int_def hexValue_def hexTable_def)+
  done

lemma char_to_int_small:
  assumes "n < 16"
  shows "char_to_int sc (char_of (int n)) = int n"
proof -
  have "(of_char (char_of n) :: int) = int (of_char (char_of n))"
    by (simp only: of_nat_of_char)
  also have "\<dots> = int (n mod 256)" by (simp only: of_char_of)
  finally have "(of_char (char_of n) :: int) = int n" using assms by simp
  then have "char_to_int sc (char_of n) = int n" using assms by (simp add: char_to_int_def)
  then show ?thesis by (simp only: char_of_nat)
qed

lemma combine_hex:
  assumes "isHexDigit X" "isHexDigit Y"
  shows "combine sc (hexDigitToValue sc X) (hexDigitToValue sc Y)
           = char_of (16 * hexValue X + hexValue Y)"
proof -
  from assms have x: "hexDigitToValue sc X = char_of (int (hexValue X))" "hexValue X < 16"
    and y: "hexDigitToValue sc Y = char_of (int (hexValue Y))" "hexValue Y < 16"
    by (simp_all only: hexDigitToValue_hex)
  have "push_bit 4 (int (hexValue X)) OR int (hexValue Y)
          = int (16 * hexValue X + hexValue Y)"
    using y(2) by (subst shift_or_add) simp_all
  then have "char_of (push_bit 4 (int (hexValue X)) OR int (hexValue Y))
          = char_of (int (16 * hexValue X + hexValue Y))"
    by (rule arg_cong)
  also have "\<dots> = char_of (16 * hexValue X + hexValue Y)"
    by (rule char_of_nat)
  finally show ?thesis
    unfolding combine_def by (simp only: x(1) y(1) char_to_int_small [OF x(2)] char_to_int_small [OF y(2)])
qed

lemma decodeLoop_scanFrom:
  "decodeLoop sc s i acc = Some (acc @ scanFrom sc (drop i s))"
proof (induction sc s i acc rule: decodeLoop.induct)
  case (1 sc encoded i decoded)
  show ?case
  proof (cases "i < length encoded")
    case False
    then show ?thesis by (simp add: decodeLoop.simps [of sc encoded i decoded])
  next
    case True
    then have d: "drop i encoded = encoded ! i # drop (Suc i) encoded"
      by (simp add: Cons_nth_drop_Suc)
    show ?thesis
    proof (cases "encoded ! i = CHR ''%'' \<and> i + 2 < length encoded")
      case esc: True
      then have d2: "drop (Suc i) encoded ! 0 = encoded ! (i + 1)"
        "drop (Suc i) encoded ! 1 = encoded ! (i + 2)"
        "drop 2 (drop (Suc i) encoded) = drop (i + 3) encoded"
        by (simp_all add: add.commute numeral_3_eq_3)
      from esc True
      have "decodeLoop sc encoded i decoded =
        decodeLoop sc encoded (i + 3)
          (decoded @ [combine sc (hexDigitToValue sc (encoded ! (i + 1)))
                                 (hexDigitToValue sc (encoded ! (i + 2)))])"
        by (simp add: decodeLoop.simps [of sc encoded i decoded] at_def)
      also have "\<dots> = Some ((decoded @ [combine sc (hexDigitToValue sc (encoded ! (i + 1)))
                                 (hexDigitToValue sc (encoded ! (i + 2)))])
                        @ scanFrom sc (drop (i + 3) encoded))"
        using True esc by (intro "1.IH"(1)) (simp_all add: at_def)
      finally have run: "decodeLoop sc encoded i decoded =
        Some ((decoded @ [combine sc (hexDigitToValue sc (encoded ! (i + 1)))
                                 (hexDigitToValue sc (encoded ! (i + 2)))])
                        @ scanFrom sc (drop (i + 3) encoded))" .
      from esc have "i + 2 < length encoded" by simp
      then have len2: "2 \<le> length (drop (Suc i) encoded)" by simp
      have "scanFrom sc (drop i encoded) = scanFrom sc (CHR ''%'' # drop (Suc i) encoded)"
        using d esc by simp
      also have "\<dots> = combine sc (hexDigitToValue sc (drop (Suc i) encoded ! 0))
                              (hexDigitToValue sc (drop (Suc i) encoded ! 1))
                         # scanFrom sc (drop 2 (drop (Suc i) encoded))"
        using len2 by (simp only: scanFrom.simps simp_thms if_True)
      finally have "scanFrom sc (drop i encoded)
          = combine sc (hexDigitToValue sc (encoded ! (i + 1)))
                       (hexDigitToValue sc (encoded ! (i + 2)))
              # scanFrom sc (drop (i + 3) encoded)"
        by (simp only: d2)
      with run show ?thesis by simp
    next
      case lit: False
      have "decodeLoop sc encoded i decoded
              = decodeLoop sc encoded (i + 1) (decoded @ [encoded ! i])"
        using lit True by (auto simp add: decodeLoop.simps [of sc encoded i decoded] at_def)
      also have "\<dots> = Some ((decoded @ [encoded ! i]) @ scanFrom sc (drop (i + 1) encoded))"
        using True lit by (intro "1.IH"(2)) (simp_all add: at_def)
      finally show ?thesis
        using lit d True by auto
    qed
  qed
qed

lemma scanFrom_no_percent: "CHR ''%'' \<notin> set s \<Longrightarrow> scanFrom sc s = s"
  by (induction s) auto

lemma decodeURL_scanFrom: "decodeURL sc s = Some (scanFrom sc s)"
  by (simp add: decodeURL_def decodeLoop_scanFrom scanFrom_no_percent)

lemma scanFrom_append:
  "wholeTokens pre \<Longrightarrow> scanFrom sc (pre @ s) = scanFrom sc pre @ scanFrom sc s"
proof (induction pre rule: wholeTokens.induct)
  case 1
  then show ?case by simp
next
  case (2 c cs)
  show ?case
  proof (cases "c = CHR ''%''")
    case True
    with "2.prems" have len: "2 \<le> length cs" and w: "wholeTokens (drop 2 cs)" by simp_all
    from len obtain a b r where cs: "cs = a # b # r"
      by (cases cs; cases "tl cs") auto
    from "2.IH"(1) [OF True] w
    have "scanFrom sc (drop 2 cs @ s) = scanFrom sc (drop 2 cs) @ scanFrom sc s"
      by simp
    then show ?thesis using True cs by simp
  next
    case False
    with 2 show ?thesis by simp
  qed
qed

lemma scanFrom_truncated:
  "length rest < 2 \<Longrightarrow> scanFrom sc (CHR ''%'' # rest) = CHR ''%'' # rest"
  by (cases rest) auto

text \<open>
  C9, as the claim states it, fails. The decoder never checks that the two characters
  after a \<open>%\<close> are hexadecimal digits (\<open>hexDigitToValue\<close> gives a value for any
  character), so a \<open>%\<close> can be consumed as a digit of an earlier escape. In
  \<open>%4%\<close> the last \<open>%\<close> has no character after it and is still not copied: the
  output is the single byte \<open>0xF5\<close>. In \<open>%4%41\<close> the escape \<open>%41\<close> is not replaced
  by \<open>A\<close>: the output is the byte \<open>0xF5\<close> followed by the characters \<open>4\<close> and \<open>1\<close>.
  Both hold whether \<open>char\<close> is signed or not.
\<close>

theorem decodeURL_consumed_percent_counterexample:
  "decodeURL True ''%4%'' = Some [CHR 0xF5] \<and> decodeURL False ''%4%'' = Some [CHR 0xF5]
   \<and> decodeURL True ''%4%41'' = Some [CHR 0xF5, CHR ''4'', CHR ''1'']
   \<and> decodeURL False ''%4%41'' = Some [CHR 0xF5, CHR ''4'', CHR ''1'']"
  by code_simp

text \<open>
  C9, amended: the percent-decoder is total and never reads past the end of its input
  (every read of the model is checked, and the result is never the failure \<open>None\<close>), and
  a string containing no \<open>%\<close> is returned unchanged. For a \<open>%\<close> at which the
  left-to-right scan arrives, that is, one that is not consumed as one of the two
  characters after an earlier \<open>%\<close> (the input before it is a sequence of whole
  tokens): if fewer than two characters follow, it is copied to the output literally
  together with what follows it; if the two characters \<open>X\<close>, \<open>Y\<close> after it are
  hexadecimal digits, the three characters are replaced by the single byte
  \<open>16 * X + Y\<close>, between the decoding of what precedes and the decoding of what follows.
\<close>

theorem decodeURL_scan:
  "(\<exists>out. decodeURL sc s = Some out)
   \<and> (CHR ''%'' \<notin> set s \<longrightarrow> decodeURL sc s = Some s)
   \<and> (wholeTokens pre \<and> length rest < 2 \<longrightarrow>
        (\<exists>out. decodeURL sc pre = Some out
           \<and> decodeURL sc (pre @ CHR ''%'' # rest) = Some (out @ CHR ''%'' # rest)))
   \<and> (wholeTokens pre \<and> isHexDigit X \<and> isHexDigit Y \<longrightarrow>
        (\<exists>out out'. decodeURL sc pre = Some out \<and> decodeURL sc post = Some out'
           \<and> decodeURL sc (pre @ CHR ''%'' # X # Y # post)
               = Some (out @ char_of (16 * hexValue X + hexValue Y) # out')))"
proof (intro conjI impI)
  show "\<exists>out. decodeURL sc s = Some out"
    by (simp add: decodeURL_scanFrom)
  show "decodeURL sc s = Some s" if "CHR ''%'' \<notin> set s"
    using that by (simp add: decodeURL_scanFrom scanFrom_no_percent)
  show "\<exists>out. decodeURL sc pre = Some out
           \<and> decodeURL sc (pre @ CHR ''%'' # rest) = Some (out @ CHR ''%'' # rest)"
    if h: "wholeTokens pre \<and> length rest < 2"
  proof -
    from h have "scanFrom sc (pre @ CHR ''%'' # rest) = scanFrom sc pre @ CHR ''%'' # rest"
      by (simp only: scanFrom_append scanFrom_truncated)
    then show ?thesis by (simp add: decodeURL_scanFrom)
  qed
  show "\<exists>out out'. decodeURL sc pre = Some out \<and> decodeURL sc post = Some out'
           \<and> decodeURL sc (pre @ CHR ''%'' # X # Y # post)
               = Some (out @ char_of (16 * hexValue X + hexValue Y) # out')"
    if h: "wholeTokens pre \<and> isHexDigit X \<and> isHexDigit Y"
  proof -
    have "scanFrom sc (CHR ''%'' # X # Y # post)
            = combine sc (hexDigitToValue sc X) (hexDigitToValue sc Y) # scanFrom sc post"
      by simp
    with h have "scanFrom sc (pre @ CHR ''%'' # X # Y # post)
        = scanFrom sc pre @ char_of (16 * hexValue X + hexValue Y) # scanFrom sc post"
      by (simp only: scanFrom_append combine_hex)
    then show ?thesis by (simp add: decodeURL_scanFrom)
  qed
qed

theorem decodeURL_scan_witness:
  "wholeTokens ''a%41b'' \<and> length ''2'' < 2 \<and> isHexDigit CHR ''2'' \<and> isHexDigit CHR ''F''
   \<and> decodeURL True ''file:/tmp'' = Some ''file:/tmp''
   \<and> decodeURL True (''a%41b'' @ CHR ''%'' # ''2'') = Some ''aAb%2''
   \<and> decodeURL True (''a%41b'' @ CHR ''%'' # CHR ''2'' # CHR ''F'' # ''x%7e'') = Some ''aAb/x~''"
proof -
  have w: "wholeTokens ''a%41b''" and l: "length ''2'' < 2"
    and x: "isHexDigit CHR ''2''" and y: "isHexDigit CHR ''F''"
    by (simp_all add: isHexDigit_def)
  have p: "CHR ''%'' \<notin> set ''file:/tmp''" by simp
  have pre: "decodeURL True ''a%41b'' = Some ''aAb''"
    and pst: "decodeURL True ''x%7e'' = Some ''x~''"
    and v: "char_of (16 * hexValue CHR ''2'' + hexValue CHR ''F'') = CHR ''/''"
    by code_simp+
  note inst = decodeURL_scan [of True "''file:/tmp''" "''a%41b''" "''2''" "CHR ''2''" "CHR ''F''" "''x%7e''"]
  from inst p have a: "decodeURL True ''file:/tmp'' = Some ''file:/tmp''" by blast
  from inst w l pre have b: "decodeURL True (''a%41b'' @ CHR ''%'' # ''2'') = Some ''aAb%2''"
    by auto
  from inst w x y pre pst v
  have c: "decodeURL True (''a%41b'' @ CHR ''%'' # CHR ''2'' # CHR ''F'' # ''x%7e'') = Some ''aAb/x~''"
    by auto
  from w l x y a b c show ?thesis by blast
qed


section \<open>The preemption timer fires\<close>

lemma firings_expiry:
  "expires_at (preemptionTimer (firings nows v))
     = expires_at (preemptionTimer v) + int (length nows)"
  by (induction nows arbitrary: v) (simp_all add: onPreemptionTimerExpire_def)

text \<open>
  C7: when the preemption timer fires without having been cancelled (the handler is not
  called with \<open>operation_aborted\<close>), the handler publishes the current reference time,
  raises the preemption request and arms the timer again at its previous expiry time plus
  one millisecond, whatever the current time is; so after any number of firings the
  expiry time is the first one plus that number, whatever the times of the firings.
\<close>

theorem preemption_rearm:
  "(err \<noteq> operation_aborted \<longrightarrow>
       referenceTime (onPreemptionTimerExpire err now v) = now
     \<and> preemptRequested (onPreemptionTimerExpire err now v)
     \<and> expires_at (preemptionTimer (onPreemptionTimerExpire err now v))
         = expires_at (preemptionTimer v) + 1
     \<and> waiting (preemptionTimer (onPreemptionTimerExpire err now v)))
   \<and> expires_at (preemptionTimer (firings nows v))
       = expires_at (preemptionTimer v) + int (length nows)"
  by (simp add: onPreemptionTimerExpire_def firings_expiry)

theorem preemption_rearm_witness:
  "success \<noteq> operation_aborted
   \<and> referenceTime (onPreemptionTimerExpire success 1000
        ((newBoostVM 1)\<lparr>preemptionTimer := \<lparr>expires_at = 5, waiting = False\<rparr>\<rparr>)) = 1000
   \<and> expires_at (preemptionTimer (onPreemptionTimerExpire success 1000
        ((newBoostVM 1)\<lparr>preemptionTimer := \<lparr>expires_at = 5, waiting = False\<rparr>\<rparr>))) = 6
   \<and> expires_at (preemptionTimer (firings [1000, 1000, 1001]
        ((newBoostVM 1)\<lparr>preemptionTimer := \<lparr>expires_at = 5, waiting = False\<rparr>\<rparr>))) = 8"
  using preemption_rearm [of success 1000
      "(newBoostVM 1)\<lparr>preemptionTimer := \<lparr>expires_at = 5, waiting = False\<rparr>\<rparr>"
      "[1000, 1000, 1001]"]
  by simp

section \<open>The registry\<close>

text \<open>The definitions that evaluate an operation on a given environment.\<close>

lemmas evals = terminate_def forVM_def onVM_def addVM_def newBoostEnvironment_def newBoostVM_def
  tellMonitors_def closeStream_def streamAsked_def portClosed_def isRunning_def postVMEvent_def
  killVM_def requestTermination_def getVM_def listVMs_def Let_def


lemma scanVMs_None: "(scanVMs xs i = None) = (i \<notin> vmIdentifier ` set xs)"
  by (induction xs) auto

lemma scanVMs_Some: "scanVMs xs i = Some v \<Longrightarrow> v \<in> set xs \<and> vmIdentifier v = i"
  by (induction xs) (auto split: if_splits)

lemma listLoop_acc: "listLoop xs acc = rev (map vmIdentifier (filter isRunning xs)) @ acc"
  by (induction xs arbitrary: acc) auto

lemma listVMs_eq: "listVMs env = rev (map vmIdentifier (filter isRunning (vms env)))"
  by (simp add: listVMs_def listLoop_acc)

lemma allocated_onVM:
  "(\<And>v. vmIdentifier (f v) = vmIdentifier v) \<Longrightarrow> allocated (onVM h f env) = allocated env"
  by (simp add: allocated_def onVM_def)

lemma allocated_postVMEvent [simp]: "allocated (postVMEvent h ev env) = allocated env"
  by (simp add: postVMEvent_def allocated_onVM)

lemma allocated_tellLoop [simp]: "allocated (tellLoop h ms env) = allocated env"
  by (induction ms arbitrary: env) (simp_all add: allocated_onVM)

lemma allocated_terminate [simp]: "allocated (terminate h env) = allocated env"
  by (simp add: terminate_def tellMonitors_def allocated_onVM split: option.splits)

lemma allocated_killVM [simp]: "allocated (killVM env h c) = allocated env"
proof -
  have "allocated (e\<lparr>aliveVMs := n\<rparr>) = allocated e"
    "allocated (e\<lparr>exited := x\<rparr>) = allocated e" for e n x
    by (simp_all add: allocated_def)
  then show ?thesis
    by (simp add: killVM_def requestTermination_def Let_def split: option.splits)
qed

lemma allocated_runEvent [simp]: "allocated (runEvent h ev env) = allocated env"
  by (cases ev) (simp_all add: runEvent_def allocated_onVM)

lemma allocated_invokeFront [simp]: "allocated (invokeFront h ev env) = allocated env"
  by (simp add: invokeFront_def allocated_onVM)

lemma allocated_drain: "allocated (snd (drain h n env)) = allocated env"
proof (induction h n env rule: drain.induct)
  case (1 h nextInvoke env)
  show ?case
  proof (cases "forVM env h")
    case None
    then show ?thesis by simp
  next
    case (Some v)
    show ?thesis
    proof (cases "vmEventsCallbacks v")
      case Nil
      with Some show ?thesis by simp
    next
      case (Cons ev rest)
      with Some "1.IH" [OF Some Cons] show ?thesis by simp
    qed
  qed
qed

lemma allocated_lockedBlock: "allocated (snd (lockedBlock h pr env)) = allocated env"
  using allocated_drain [of h "fst pr" env]
  by (auto simp: lockedBlock_def allocated_onVM split: option.splits prod.splits)

lemma allocated_iteration: "allocated (snd (iteration h now pr env)) = allocated env"
proof -
  have "allocated (armed h now env) = allocated env"
    by (simp add: armed_def allocated_onVM)
  with allocated_lockedBlock [of h pr "armed h now env"] show ?thesis
    by (auto simp: iteration_def cancelAlarm_def allocated_onVM
        split: prod.splits loopState.splits)
qed

lemma vmIdentifier_applyOp [simp]: "vmIdentifier (applyOp op v) = vmIdentifier v"
  by (cases op) (auto simp: getStream_def split: option.splits)

lemma vmIdentifier_expire [simp]:
  "vmIdentifier (onPreemptionTimerExpire err now v) = vmIdentifier v"
  by (simp add: onPreemptionTimerExpire_def)

lemma iteration_halves: "iteration h now pr env = leaveRun h pr (enterRun h now env)"
  by (simp add: iteration_def leaveRun_def enterRun_def armed_def)

lemma allocated_leaveRun: "allocated (snd (leaveRun h pr env)) = allocated env"
proof -
  have "allocated (onVM h (\<lambda>v. v\<lparr>preemptionTimer := (preemptionTimer v)\<lparr>waiting := False\<rparr>\<rparr>) env)
      = allocated env"
    by (simp add: allocated_onVM)
  with allocated_lockedBlock
         [of h pr "onVM h (\<lambda>v. v\<lparr>preemptionTimer := (preemptionTimer v)\<lparr>waiting := False\<rparr>\<rparr>) env"]
  show ?thesis
    by (auto simp: leaveRun_def cancelAlarm_def allocated_onVM
        split: prod.splits loopState.splits)
qed

lemma allocated_act: "allocated (snd (act h a (p, env))) = allocated env"
proof (cases a)
  case GetStream
  have "allocated (onVM h (applyOp Ask) env) = allocated env"
    by (rule allocated_onVM) (rule vmIdentifier_applyOp)
  with GetStream show ?thesis by simp
next
  case CloseStream
  have "allocated (onVM h closeStream env) = allocated env"
    by (rule allocated_onVM) simp
  with CloseStream show ?thesis by simp
next
  case (Expire err now)
  have "allocated (onVM h (onPreemptionTimerExpire err now) env) = allocated env"
    by (rule allocated_onVM) simp
  with Expire show ?thesis by simp
qed (simp_all add: allocated_leaveRun enterRun_def cancelAlarm_def addMonitor_def allocated_onVM)

lemma allocated_sendToVMPort:
  "sendToVMPort env pack to val = Inr env' \<Longrightarrow> allocated env' = allocated env"
  by (auto simp: sendToVMPort_def split: option.splits if_splits)

lemma registry_allocated:
  "registry env \<Longrightarrow>
     1 \<le> nextVMIdentifier env
     \<and> map vmIdentifier (vms env) = rev [1 .. nextVMIdentifier env - 1]"
proof (induction rule: registry.induct)
  case created
  show ?case by (simp add: newBoostEnvironment_def)
next
  case (added env app isURL)
  then have "[1 .. nextVMIdentifier env] = [1 .. nextVMIdentifier env - 1] @ [nextVMIdentifier env]"
    by (simp add: upto_rec2)
  with added show ?case by (simp add: addVM_def newBoostVM_def)
next
  case (acted env h a p)
  with allocated_act [of h a p env] show ?case by (simp add: allocated_def)
next
  case (terminated env h)
  with allocated_terminate [of h env] show ?case by (simp add: allocated_def)
next
  case (monitored env h m)
  have "allocated (addMonitor h m env) = allocated env"
    by (simp add: addMonitor_def allocated_onVM)
  with monitored show ?case by (simp add: allocated_def)
next
  case (closed env h)
  have "allocated (onVM h closeStream env) = allocated env"
    by (simp add: allocated_onVM)
  with closed show ?case by (simp add: allocated_def)
next
  case (asked env h v r v')
  from asked.hyps(3) have "v' = v\<lparr>asyncIONodeCount := asyncIONodeCount v + 1, headOfStream := None\<rparr>"
    by (auto simp: getStream_def split: option.splits)
  moreover from asked.hyps(2) have "vmIdentifier v = h" by (rule forVM_ident)
  ultimately have "map vmIdentifier (vms (onVM h (\<lambda>_. v') env)) = map vmIdentifier (vms env)"
    by (simp add: onVM_def)
  moreover have "nextVMIdentifier (onVM h (\<lambda>_. v') env) = nextVMIdentifier env"
    by (simp add: onVM_def)
  ultimately show ?case using asked.IH by simp
next
  case (sent env pack to val env')
  with allocated_sendToVMPort [OF sent.hyps(2)] show ?case by (simp add: allocated_def)
qed

text \<open>
  C8, as the claim states it, fails: the claim asks for a live match, and \<open>getVM\<close>
  does not look at whether the VM it finds is running. The VM 1 of an environment of two
  VMs has terminated: \<open>listVMs\<close> no longer lists it, and looking it up raises no
  error but returns that terminated VM.
\<close>

theorem getVM_terminated_counterexample:
  "listVMs (terminate 1 (addVM (addVM newBoostEnvironment ''x'' True) ''y'' True)) = [2]
   \<and> \<not> isl (getVM (terminate 1 (addVM (addVM newBoostEnvironment ''x'' True) ''y'' True)) 1)
   \<and> vmIdentifier
        (projr (getVM (terminate 1 (addVM (addVM newBoostEnvironment ''x'' True) ''y'' True)) 1)) = 1
   \<and> \<not> isRunning
        (projr (getVM (terminate 1 (addVM (addVM newBoostEnvironment ''x'' True) ''y'' True)) 1))"
  by (simp add: getVM_def listVMs_def isRunning_def tellMonitors_def closeStream_def
      streamAsked_def portClosed_def terminate_def forVM_def onVM_def addVM_def
      newBoostEnvironment_def newBoostVM_def)

text \<open>
  C8, amended: \<open>getVM\<close> scans the list and raises the error exactly when no VM of
  the list, running or terminated, has the identifier; a VM that is found is one of the
  list with that identifier, whether it has terminated or not (VMs are never removed),
  and no other error is raised. In an environment built by the program the identifiers
  given out are those from 1 up to \<open>nextVMIdentifier - 1\<close>, so the error is raised
  exactly for the identifiers that were never allocated.
\<close>

theorem getVM_unknown:
  "((getVM env ident = Inl (UnknownIsolate ident)) = (\<forall>v \<in> set (vms env). vmIdentifier v \<noteq> ident))
   \<and> (\<forall>v. getVM env ident = Inr v \<longrightarrow> v \<in> set (vms env) \<and> vmIdentifier v = ident)
   \<and> (\<forall>e. getVM env ident = Inl e \<longrightarrow> e = UnknownIsolate ident)
   \<and> (registry env \<longrightarrow>
        (getVM env ident = Inl (UnknownIsolate ident)) = (ident < 1 \<or> nextVMIdentifier env \<le> ident))"
proof (intro conjI allI impI)
  show a: "(getVM env ident = Inl (UnknownIsolate ident)) = (\<forall>v \<in> set (vms env). vmIdentifier v \<noteq> ident)"
    using scanVMs_None [of "vms env" ident]
    by (auto simp: getVM_def split: option.splits)
  show "v \<in> set (vms env)" "vmIdentifier v = ident" if "getVM env ident = Inr v" for v
    using that scanVMs_Some [of "vms env" ident v]
    by (auto simp: getVM_def split: option.splits)
  show "e = UnknownIsolate ident" if "getVM env ident = Inl e" for e
    using that by (auto simp: getVM_def split: option.splits)
  show "(getVM env ident = Inl (UnknownIsolate ident)) = (ident < 1 \<or> nextVMIdentifier env \<le> ident)"
    if "registry env"
  proof -
    from registry_allocated [OF that]
    have "vmIdentifier ` set (vms env) = {1 .. nextVMIdentifier env - 1}"
      by (metis set_map set_rev set_upto)
    moreover have "(\<forall>v \<in> set (vms env). vmIdentifier v \<noteq> ident)
        = (ident \<notin> vmIdentifier ` set (vms env))"
      by auto
    ultimately have "(\<forall>v \<in> set (vms env). vmIdentifier v \<noteq> ident)
        = (ident \<notin> {1 .. nextVMIdentifier env - 1})"
      by simp
    also have "\<dots> = (ident < 1 \<or> nextVMIdentifier env \<le> ident)" by auto
    finally show ?thesis unfolding a .
  qed
qed

theorem getVM_unknown_witness:
  "registry (terminate 1 (addVM (addVM newBoostEnvironment ''x'' True) ''y'' True))
   \<and> getVM (terminate 1 (addVM (addVM newBoostEnvironment ''x'' True) ''y'' True)) 3
       = Inl (UnknownIsolate 3)
   \<and> (case getVM (terminate 1 (addVM (addVM newBoostEnvironment ''x'' True) ''y'' True)) 1 of
         Inr v \<Rightarrow> terminated v | Inl e \<Rightarrow> False)"
proof -
  let ?E = "terminate 1 (addVM (addVM newBoostEnvironment ''x'' True) ''y'' True)"
  have r: "registry ?E" by (rule registry.terminated registry.added registry.created)+
  have n: "(3::int) < 1 \<or> nextVMIdentifier ?E \<le> 3" by (simp add: evals)
  have t: "case getVM ?E 1 of Inr v \<Rightarrow> terminated v | Inl e \<Rightarrow> False" by (simp add: evals)
  note c = getVM_unknown [of ?E 3, THEN conjunct2, THEN conjunct2, THEN conjunct2, THEN mp, OF r]
  from n have u: "getVM ?E 3 = Inl (UnknownIsolate 3)" by (rule c [THEN iffD2])
  show ?thesis by (intro conjI) (rule r u t)+
qed


lemma running_sorted:
  assumes "registry env"
  shows "sorted_wrt (<) (listVMs env)"
proof -
  have "sorted_wrt (<) [1 .. nextVMIdentifier env - 1]"
    by (simp add: strict_sorted_iff)
  also have "[1 .. nextVMIdentifier env - 1] = map vmIdentifier (rev (vms env))"
    using registry_allocated [OF assms] by (simp add: rev_map [symmetric])
  finally have "sorted_wrt (\<lambda>a b. vmIdentifier a < vmIdentifier b) (rev (vms env))"
    by (simp add: sorted_wrt_map)
  then have "sorted_wrt (\<lambda>a b. vmIdentifier a < vmIdentifier b) (filter isRunning (rev (vms env)))"
    by (rule sorted_wrt_filter)
  then have "sorted_wrt (<) (map vmIdentifier (filter isRunning (rev (vms env))))"
    by (simp add: sorted_wrt_map)
  moreover have "rev (map vmIdentifier (filter isRunning (vms env)))
      = map vmIdentifier (filter isRunning (rev (vms env)))"
    by (simp add: rev_map rev_filter)
  ultimately show ?thesis by (simp only: listVMs_eq)
qed

text \<open>
  C10: \<open>listVMs\<close> returns the identifiers of exactly the VMs whose termination flag is
  not set; the list is the reverse of the front-to-back order of the registry, and in an
  environment built by the program, where each new VM is put at the front with the next
  identifier, it is in strictly ascending order of identifier, the order of creation.
\<close>

theorem listVMs_creation_order:
  "listVMs env = rev (map vmIdentifier (filter isRunning (vms env)))
   \<and> set (listVMs env) = {vmIdentifier v |v. v \<in> set (vms env) \<and> \<not> terminated v}
   \<and> (registry env \<longrightarrow> sorted_wrt (<) (listVMs env))"
proof (intro conjI impI)
  show "listVMs env = rev (map vmIdentifier (filter isRunning (vms env)))"
    by (rule listVMs_eq)
  show "set (listVMs env) = {vmIdentifier v |v. v \<in> set (vms env) \<and> \<not> terminated v}"
    by (auto simp: listVMs_eq isRunning_def)
  show "sorted_wrt (<) (listVMs env)" if "registry env"
    using that by (rule running_sorted)
qed

theorem listVMs_creation_order_witness:
  "registry (terminate 2 (addVM (addVM (addVM newBoostEnvironment ''x'' True) ''y'' True) ''z'' True))
   \<and> listVMs (terminate 2 (addVM (addVM (addVM newBoostEnvironment ''x'' True) ''y'' True) ''z'' True))
       = [1, 3]
   \<and> sorted_wrt (<)
       (listVMs (terminate 2 (addVM (addVM (addVM newBoostEnvironment ''x'' True) ''y'' True) ''z'' True)))"
proof -
  let ?E = "terminate 2 (addVM (addVM (addVM newBoostEnvironment ''x'' True) ''y'' True) ''z'' True)"
  have r: "registry ?E" by (rule registry.terminated registry.added registry.created)+
  have l: "listVMs ?E = [1, 3]" by (simp add: evals)
  note c = listVMs_creation_order [of ?E, THEN conjunct2, THEN conjunct2, THEN mp, OF r]
  show ?thesis by (intro conjI) (rule r l c)+
qed

section \<open>The stream\<close>

lemma streamFrom_extend:
  assumes "streamFrom st r vals t" "t < length st" "st ! t = ReadOnlyVariable"
  shows "streamFrom (st[t := OzCons x (length st)] @ [ReadOnlyVariable]) r (vals @ [x]) (length st)"
  using assms(1)
proof (induction vals arbitrary: r)
  case Nil
  then show ?case using assms(2) by (simp add: nth_append)
next
  case (Cons y ys)
  from Cons.prems obtain n where r: "r < length st" "st ! r = OzCons y n" and rest: "streamFrom st n ys t"
    by (auto split: node.splits)
  from r assms(3) have "r \<noteq> t" by auto
  with r have "(st[t := OzCons x (length st)] @ [ReadOnlyVariable]) ! r = OzCons y n"
    by (simp add: nth_append)
  with r Cons.IH [OF rest] show ?case by simp
qed

lemma receive_open:
  assumes "openTail v" "streamFrom (store v) r vals (the (stream v))"
  shows "openTail (receiveOnVMPort v x)
       \<and> streamFrom (store (receiveOnVMPort v x)) r (vals @ [x]) (the (stream (receiveOnVMPort v x)))"
proof -
  from assms(1) obtain t where t: "stream v = Some t" "t < length (store v)"
    "store v ! t = ReadOnlyVariable"
    by (auto simp: openTail_def split: option.splits)
  have s: "store (receiveOnVMPort v x) = (store v)[t := OzCons x (length (store v))] @ [ReadOnlyVariable]"
    "stream (receiveOnVMPort v x) = Some (length (store v))"
    using t by (simp_all add: receiveOnVMPort_def sendToReadOnlyStream_def)
  have "openTail (receiveOnVMPort v x)"
    by (simp add: openTail_def s nth_append)
  moreover have "streamFrom (store (receiveOnVMPort v x)) r (vals @ [x]) (the (stream (receiveOnVMPort v x)))"
    using streamFrom_extend [OF _ t(2,3)] assms(2) t(1) by (simp add: s)
  ultimately show ?thesis by simp
qed

lemma receiveBuffer_eq:
  "receiveOnVMPortBuffer v b = receiveOnVMPort v (OzUnpickled b)"
  by (simp add: receiveOnVMPortBuffer_def receiveOnVMPort_def)

lemma receive_all_open:
  assumes "openTail v" "streamFrom (store v) r vals (the (stream v))"
  shows "openTail (applyOps (map Receive xs) v)
       \<and> streamFrom (store (applyOps (map Receive xs) v)) r (vals @ xs)
            (the (stream (applyOps (map Receive xs) v)))"
  using assms
proof (induction xs arbitrary: v vals)
  case Nil
  then show ?case by simp
next
  case (Cons x xs)
  from receive_open [OF Cons.prems, of x]
  have "openTail (receiveOnVMPort v x)"
    "streamFrom (store (receiveOnVMPort v x)) r (vals @ [x]) (the (stream (receiveOnVMPort v x)))"
    by simp_all
  from Cons.IH [OF this] show ?case by simp
qed

lemma streamAsked_applyOp: "streamAsked v \<Longrightarrow> streamAsked (applyOp op v)"
  by (cases op)
     (auto simp: streamAsked_def receiveOnVMPort_def receiveOnVMPortBuffer_def
        sendToReadOnlyStream_def closeStream_def getStream_def split: option.splits)

lemma streamAsked_applyOps: "streamAsked v \<Longrightarrow> streamAsked (applyOps ops v)"
  by (induction ops arbitrary: v) (simp_all add: streamAsked_applyOp)

lemma getStream_asked: "streamAsked v \<Longrightarrow> getStream v = Inl StreamAlreadyRequested"
  by (simp add: streamAsked_def getStream_def)

text \<open>
  C4: the first \<open>getStream\<close> of a VM returns the head reference of its stream, marks
  the stream as asked and adds exactly one to the counter of pending asynchronous
  operations, leaving the store and the tail as they were; every later \<open>getStream\<close>,
  after whatever was received, closed or asked in between, raises
  \<open>StreamAlreadyRequested\<close> and leaves the VM as it was. Values received on the open
  port after the first call are read through the reference returned by it, after the
  values it already led to. A \<open>getStream\<close> on a stream already asked raises the error.
\<close>

theorem getStream_once:
  "(headOfStream v = Some r \<longrightarrow>
      (\<exists>v1. getStream v = Inr (r, v1)
         \<and> streamAsked v1 \<and> asyncIONodeCount v1 = asyncIONodeCount v + 1
         \<and> store v1 = store v \<and> stream v1 = stream v
         \<and> (\<forall>ops. getStream (applyOps ops v1) = Inl StreamAlreadyRequested
                \<and> applyOp Ask (applyOps ops v1) = applyOps ops v1)
         \<and> (\<forall>vals xs. openTail v \<and> streamFrom (store v) r vals (the (stream v)) \<longrightarrow>
                openTail (applyOps (map Receive xs) v1)
              \<and> streamFrom (store (applyOps (map Receive xs) v1)) r (vals @ xs)
                   (the (stream (applyOps (map Receive xs) v1))))))
   \<and> (headOfStream v = None \<longrightarrow> getStream v = Inl StreamAlreadyRequested)"
proof (intro conjI impI)
  assume h: "headOfStream v = Some r"
  let ?v1 = "v\<lparr>asyncIONodeCount := asyncIONodeCount v + 1, headOfStream := None\<rparr>"
  have g: "getStream v = Inr (r, ?v1)" using h by (simp add: getStream_def)
  have a: "streamAsked ?v1" by (simp add: streamAsked_def)
  have again: "getStream (applyOps ops ?v1) = Inl StreamAlreadyRequested
       \<and> applyOp Ask (applyOps ops ?v1) = applyOps ops ?v1" for ops
    using getStream_asked [OF streamAsked_applyOps [OF a, of ops]] by simp
  have grow: "openTail (applyOps (map Receive xs) ?v1)
              \<and> streamFrom (store (applyOps (map Receive xs) ?v1)) r (vals @ xs)
                   (the (stream (applyOps (map Receive xs) ?v1)))"
    if "openTail v \<and> streamFrom (store v) r vals (the (stream v))" for vals xs
  proof (rule receive_all_open)
    show "openTail ?v1" using that by (auto simp: openTail_def split: option.splits)
    show "streamFrom (store ?v1) r vals (the (stream ?v1))" using that by simp
  qed
  show "\<exists>v1. getStream v = Inr (r, v1)
         \<and> streamAsked v1 \<and> asyncIONodeCount v1 = asyncIONodeCount v + 1
         \<and> store v1 = store v \<and> stream v1 = stream v
         \<and> (\<forall>ops. getStream (applyOps ops v1) = Inl StreamAlreadyRequested
                \<and> applyOp Ask (applyOps ops v1) = applyOps ops v1)
         \<and> (\<forall>vals xs. openTail v \<and> streamFrom (store v) r vals (the (stream v)) \<longrightarrow>
                openTail (applyOps (map Receive xs) v1)
              \<and> streamFrom (store (applyOps (map Receive xs) v1)) r (vals @ xs)
                   (the (stream (applyOps (map Receive xs) v1))))"
  proof (intro exI [of _ ?v1] conjI allI impI)
    show "getStream v = Inr (r, ?v1)" by (rule g)
    show "streamAsked ?v1" by (rule a)
    show "asyncIONodeCount ?v1 = asyncIONodeCount v + 1" by simp
    show "store ?v1 = store v" by simp
    show "stream ?v1 = stream v" by simp
    show "getStream (applyOps ops ?v1) = Inl StreamAlreadyRequested" for ops
      using again [of ops] by simp
    show "applyOp Ask (applyOps ops ?v1) = applyOps ops ?v1" for ops
      using again [of ops] by simp
    show "openTail (applyOps (map Receive xs) ?v1)"
      if "openTail v \<and> streamFrom (store v) r vals (the (stream v))" for vals xs
      using grow [OF that] by simp
    show "streamFrom (store (applyOps (map Receive xs) ?v1)) r (vals @ xs)
                   (the (stream (applyOps (map Receive xs) ?v1)))"
      if "openTail v \<and> streamFrom (store v) r vals (the (stream v))" for vals xs
      using grow [OF that] by simp
  qed
next
  assume "headOfStream v = None"
  then show "getStream v = Inl StreamAlreadyRequested" by (simp add: getStream_def)
qed


theorem getStream_once_witness:
  "headOfStream (newBoostVM 1) = Some 0
   \<and> openTail (newBoostVM 1)
   \<and> streamFrom (store (newBoostVM 1)) 0 [] (the (stream (newBoostVM 1)))
   \<and> (case getStream (newBoostVM 1) of
         Inl e \<Rightarrow> False
       | Inr (r, v1) \<Rightarrow>
           r = 0 \<and> asyncIONodeCount v1 = 1
           \<and> getStream v1 = Inl StreamAlreadyRequested
           \<and> getStream (applyOps [Receive (OzValue 7), Close] v1) = Inl StreamAlreadyRequested
           \<and> streamFrom (store (applyOps (map Receive [OzValue 7, OzValue 8]) v1)) 0
                ([] @ [OzValue 7, OzValue 8])
                (the (stream (applyOps (map Receive [OzValue 7, OzValue 8]) v1))))"
proof -
  have h: "headOfStream (newBoostVM 1) = Some 0"
    and o: "openTail (newBoostVM 1)"
    and f: "streamFrom (store (newBoostVM 1)) 0 [] (the (stream (newBoostVM 1)))"
    and c: "asyncIONodeCount (newBoostVM 1) = 0"
    by (simp_all add: newBoostVM_def openTail_def)
  from getStream_once [of "newBoostVM 1" 0, THEN conjunct1, THEN mp, OF h]
  obtain v1 where g: "getStream (newBoostVM 1) = Inr (0, v1)"
    and n: "asyncIONodeCount v1 = asyncIONodeCount (newBoostVM 1) + 1"
    and again: "\<And>ops. getStream (applyOps ops v1) = Inl StreamAlreadyRequested"
    and grow: "\<And>vals xs. openTail (newBoostVM 1)
          \<and> streamFrom (store (newBoostVM 1)) 0 vals (the (stream (newBoostVM 1))) \<Longrightarrow>
        streamFrom (store (applyOps (map Receive xs) v1)) 0 (vals @ xs)
          (the (stream (applyOps (map Receive xs) v1)))"
    by blast
  have g1: "getStream v1 = Inl StreamAlreadyRequested" using again [of "[]"] by simp
  have g2: "getStream (applyOps [Receive (OzValue 7), Close] v1) = Inl StreamAlreadyRequested"
    by (rule again)
  have g3: "streamFrom (store (applyOps (map Receive [OzValue 7, OzValue 8]) v1)) 0
                ([] @ [OzValue 7, OzValue 8])
                (the (stream (applyOps (map Receive [OzValue 7, OzValue 8]) v1)))"
    by (rule grow) (intro conjI o f)
  have "case getStream (newBoostVM 1) of
         Inl e \<Rightarrow> False
       | Inr (r, v1) \<Rightarrow>
           r = 0 \<and> asyncIONodeCount v1 = 1
           \<and> getStream v1 = Inl StreamAlreadyRequested
           \<and> getStream (applyOps [Receive (OzValue 7), Close] v1) = Inl StreamAlreadyRequested
           \<and> streamFrom (store (applyOps (map Receive [OzValue 7, OzValue 8]) v1)) 0
                ([] @ [OzValue 7, OzValue 8])
                (the (stream (applyOps (map Receive [OzValue 7, OzValue 8]) v1)))"
    unfolding g using n c g1 g2 g3 by simp
  with h o f show ?thesis by (intro conjI)
qed

text \<open>
  C5: on a closed port, \<open>receiveOnVMPort\<close> changes nothing, for a value as for a
  buffer: no cell is added and no error is raised. On an open port it binds the tail to a
  cons cell of the value and a fresh read-only variable, which becomes the tail (for a
  buffer, the value is the unpickled buffer), so that whoever reads the stream reads the
  value after the earlier ones. \<open>sendToVMPort\<close> to a VM whose port is closed returns
  with the environment unchanged, before it even looks for the pickler.
\<close>

theorem receive_closed_discards:
  "(portClosed v \<longrightarrow> receiveOnVMPort v x = v \<and> receiveOnVMPortBuffer v b = v)
   \<and> (stream v = Some t \<and> t < length (store v) \<longrightarrow>
        store (receiveOnVMPort v x) ! t = OzCons x (length (store v))
      \<and> store (receiveOnVMPort v x) ! length (store v) = ReadOnlyVariable
      \<and> length (store (receiveOnVMPort v x)) = length (store v) + 1
      \<and> stream (receiveOnVMPort v x) = Some (length (store v))
      \<and> receiveOnVMPortBuffer v b = receiveOnVMPort v (OzUnpickled b))
   \<and> (openTail v \<and> streamFrom (store v) r vals (the (stream v)) \<longrightarrow>
        openTail (receiveOnVMPort v x)
      \<and> streamFrom (store (receiveOnVMPort v x)) r (vals @ [x]) (the (stream (receiveOnVMPort v x))))
   \<and> (forVM env to = Some target \<and> portClosed target \<longrightarrow>
        sendToVMPort env pack to val = Inr env)"
proof (intro conjI impI)
  assume "portClosed v"
  then show "receiveOnVMPort v x = v" "receiveOnVMPortBuffer v b = v"
    by (simp_all add: portClosed_def receiveOnVMPort_def receiveOnVMPortBuffer_def)
next
  assume a: "stream v = Some t \<and> t < length (store v)"
  then show "store (receiveOnVMPort v x) ! t = OzCons x (length (store v))"
    "store (receiveOnVMPort v x) ! length (store v) = ReadOnlyVariable"
    "length (store (receiveOnVMPort v x)) = length (store v) + 1"
    "stream (receiveOnVMPort v x) = Some (length (store v))"
    by (simp_all add: receiveOnVMPort_def sendToReadOnlyStream_def nth_append)
  show "receiveOnVMPortBuffer v b = receiveOnVMPort v (OzUnpickled b)"
    by (rule receiveBuffer_eq)
next
  assume a: "openTail v \<and> streamFrom (store v) r vals (the (stream v))"
  then show "openTail (receiveOnVMPort v x)"
    "streamFrom (store (receiveOnVMPort v x)) r (vals @ [x]) (the (stream (receiveOnVMPort v x)))"
    using receive_open [of v r vals x] by simp_all
next
  assume "forVM env to = Some target \<and> portClosed target"
  then show "sendToVMPort env pack to val = Inr env"
    by (simp add: sendToVMPort_def)
qed

theorem receive_closed_discards_witness:
  "portClosed (closeStream (applyOp Ask (newBoostVM 1)))
   \<and> receiveOnVMPort (closeStream (applyOp Ask (newBoostVM 1))) (OzValue 7)
       = closeStream (applyOp Ask (newBoostVM 1))
   \<and> receiveOnVMPortBuffer (closeStream (applyOp Ask (newBoostVM 1))) [1, 2]
       = closeStream (applyOp Ask (newBoostVM 1))
   \<and> store (closeStream (applyOp Ask (newBoostVM 1))) = [OzNil]
   \<and> openTail (newBoostVM 1)
   \<and> streamFrom (store (newBoostVM 1)) 0 [] (the (stream (newBoostVM 1)))
   \<and> streamFrom (store (receiveOnVMPort (newBoostVM 1) (OzValue 7))) 0 ([] @ [OzValue 7])
        (the (stream (receiveOnVMPort (newBoostVM 1) (OzValue 7))))
   \<and> forVM (onVM 1 (\<lambda>v. closeStream (applyOp Ask v)) (addVM newBoostEnvironment ''x'' True)) 1
        = Some (closeStream (applyOp Ask (newBoostVM 1)))
   \<and> sendToVMPort (onVM 1 (\<lambda>v. closeStream (applyOp Ask v)) (addVM newBoostEnvironment ''x'' True))
        None 1 (OzValue 7)
        = Inr (onVM 1 (\<lambda>v. closeStream (applyOp Ask v)) (addVM newBoostEnvironment ''x'' True))"
proof -
  let ?c = "closeStream (applyOp Ask (newBoostVM 1))"
  let ?E = "onVM 1 (\<lambda>v. closeStream (applyOp Ask v)) (addVM newBoostEnvironment ''x'' True)"
  have p: "portClosed ?c" and s: "store ?c = [OzNil]"
    by (simp_all add: portClosed_def closeStream_def getStream_def newBoostVM_def streamAsked_def)
  have o: "openTail (newBoostVM 1)"
    and f: "streamFrom (store (newBoostVM 1)) 0 [] (the (stream (newBoostVM 1)))"
    by (simp_all add: newBoostVM_def openTail_def)
  have e: "forVM ?E 1 = Some ?c"
    by (simp add: forVM_def onVM_def addVM_def newBoostEnvironment_def newBoostVM_def
        getStream_def closeStream_def streamAsked_def)
  note d = receive_closed_discards [of ?c "OzValue 7" "[1, 2]"]
  note d1 = d [THEN conjunct1, THEN mp, OF p]
  note g = receive_closed_discards [of "newBoostVM 1" "OzValue 7" _ _ 0 "[]",
      THEN conjunct2, THEN conjunct2, THEN conjunct1, THEN mp, OF conjI [OF o f], THEN conjunct2]
  note m = receive_closed_discards [of _ _ _ _ _ _ ?E 1 ?c None "OzValue 7",
      THEN conjunct2, THEN conjunct2, THEN conjunct2, THEN mp, OF conjI [OF e p]]
  show ?thesis
    by (intro conjI) (rule p d1 [THEN conjunct1] d1 [THEN conjunct2] s o f g e m)+
qed

section \<open>The loop of \<open>run\<close>, one pass\<close>

lemma closeStream_keeps [simp]:
  "invoked (closeStream v) = invoked v"
  "alarmTimer (closeStream v) = alarmTimer v"
  "work (closeStream v) = work v"
  "headOfStream (closeStream v) = headOfStream v"
  by (simp_all add: closeStream_def split: option.splits)

lemma receive_keeps [simp]:
  "invoked (receiveOnVMPort v x) = invoked v"
  "alarmTimer (receiveOnVMPort v x) = alarmTimer v"
  "work (receiveOnVMPort v x) = work v"
  "headOfStream (receiveOnVMPort v x) = headOfStream v"
  "effectLog (receiveOnVMPort v x) = effectLog v"
  "asyncIONodeCount (receiveOnVMPort v x) = asyncIONodeCount v"
  "(stream (receiveOnVMPort v x) = None) = (stream v = None)"
  by (simp_all add: receiveOnVMPort_def sendToReadOnlyStream_def split: option.splits)

lemma receiveBuffer_as_value:
  "receiveOnVMPortBuffer v b = receiveOnVMPort v (OzUnpickled b)"
  by (simp add: receiveOnVMPortBuffer_def receiveOnVMPort_def)

lemma eventOnSelf_queue:
  "\<exists>n. vmEventsCallbacks (eventOnSelf h ev w)
         = vmEventsCallbacks w @ replicate n (EvReceiveTerminated h)"
proof (cases ev)
  case EvTerminate
  show ?thesis
  proof (cases "terminated w")
    case True
    with EvTerminate have "vmEventsCallbacks (eventOnSelf h ev w)
        = vmEventsCallbacks w @ replicate 0 (EvReceiveTerminated h)"
      by (simp add: eventOnSelf_def)
    then show ?thesis ..
  next
    case False
    with EvTerminate have "vmEventsCallbacks (eventOnSelf h ev w)
        = vmEventsCallbacks w @ replicate (count_list (monitors w) h) (EvReceiveTerminated h)"
      by (simp add: eventOnSelf_def terminatedVM_def told_def Let_def)
    then show ?thesis ..
  qed
next
  case (EvReceiveTerminated d)
  then have "vmEventsCallbacks (eventOnSelf h ev w)
        = vmEventsCallbacks w @ replicate 0 (EvReceiveTerminated h)"
    by (simp add: eventOnSelf_def)
  then show ?thesis ..
next
  case (EvReceiveBuffer b)
  then have "vmEventsCallbacks (eventOnSelf h ev w)
        = vmEventsCallbacks w @ replicate 0 (EvReceiveTerminated h)"
    by (simp add: eventOnSelf_def)
  then show ?thesis ..
qed

lemma eventOnSelf_keeps:
  "invoked (eventOnSelf h ev w) = invoked w"
  "alarmTimer (eventOnSelf h ev w) = alarmTimer w"
  by (cases ev; simp add: eventOnSelf_def terminatedVM_def told_def Let_def receiveBuffer_as_value)+

lemma drain_spec:
  assumes "forVM env h = Some v"
  shows "\<exists>v' n. forVM (snd (drain h nextInvoke env)) h = Some v'
        \<and> vmEventsCallbacks v' = []
        \<and> invoked v' = invoked v @ vmEventsCallbacks v @ replicate n (EvReceiveTerminated h)
        \<and> alarmTimer v' = alarmTimer v
        \<and> fst (drain h nextInvoke env)
            = (if vmEventsCallbacks v = [] then nextInvoke else recInvokeAgainNow)"
  using assms
proof (induction h nextInvoke env arbitrary: v rule: drain.induct)
  case (1 h nextInvoke env)
  note v = "1.prems"
  show ?case
  proof (cases "vmEventsCallbacks v")
    case Nil
    with v have "forVM (snd (drain h nextInvoke env)) h = Some v
        \<and> vmEventsCallbacks v = []
        \<and> invoked v = invoked v @ vmEventsCallbacks v @ replicate 0 (EvReceiveTerminated h)
        \<and> alarmTimer v = alarmTimer v
        \<and> fst (drain h nextInvoke env)
            = (if vmEventsCallbacks v = [] then nextInvoke else recInvokeAgainNow)"
      by simp
    then show ?thesis by blast
  next
    case (Cons ev rest)
    let ?w = "eventOnSelf h ev (v\<lparr>invoked := invoked v @ [ev]\<rparr>)"
    let ?v1 = "?w\<lparr>vmEventsCallbacks := tl (vmEventsCallbacks ?w)\<rparr>"
    have f1: "forVM (invokeFront h ev env) h = Some ?v1"
      using v by (rule forVM_invokeFront_self)
    from eventOnSelf_queue [of h ev "v\<lparr>invoked := invoked v @ [ev]\<rparr>"] Cons
    obtain m where q: "vmEventsCallbacks ?v1 = rest @ replicate m (EvReceiveTerminated h)"
      by auto
    have i: "invoked ?v1 = invoked v @ [ev]" and a: "alarmTimer ?v1 = alarmTimer v"
      by (simp_all add: eventOnSelf_keeps)
    from "1.IH" [OF v Cons f1]
    obtain v' n where r: "forVM (snd (drain h recInvokeAgainNow (invokeFront h ev env))) h = Some v'"
      "vmEventsCallbacks v' = []"
      "invoked v' = invoked ?v1 @ vmEventsCallbacks ?v1 @ replicate n (EvReceiveTerminated h)"
      "alarmTimer v' = alarmTimer ?v1"
      "fst (drain h recInvokeAgainNow (invokeFront h ev env))
         = (if vmEventsCallbacks ?v1 = [] then recInvokeAgainNow else recInvokeAgainNow)"
      by blast
    have d: "drain h nextInvoke env = drain h recInvokeAgainNow (invokeFront h ev env)"
      using v Cons by simp
    have "invoked v' = invoked v @ vmEventsCallbacks v @ replicate (m + n) (EvReceiveTerminated h)"
      using r(3) q i Cons by (simp add: replicate_add)
    moreover have "fst (drain h nextInvoke env)
            = (if vmEventsCallbacks v = [] then nextInvoke else recInvokeAgainNow)"
      using r(5) Cons d by simp
    moreover have "alarmTimer v' = alarmTimer v" using r(4) a by simp
    ultimately show ?thesis using r(1,2) d by metis
  qed
qed


lemma loopState_of_block:
  assumes "forVM env h = Some v"
  shows "lockedBlock h (nextInvoke, t) env =
     (if \<not> isRunning v \<or>
           (nextInvoke = recNeverInvokeAgain \<and> asyncIONodeCount v = 0 \<and> vmEventsCallbacks v = [])
      then (Terminating, env)
      else if fst (drain h nextInvoke env) \<noteq> recInvokeAgainNow then
        (AwaitingWork,
         if fst (drain h nextInvoke env) = recInvokeAgainLater then
           onVM h (\<lambda>v. v\<lparr>alarmTimer := \<lparr>expires_at = t, waiting = True\<rparr>\<rparr>)
             (snd (drain h nextInvoke env))
         else snd (drain h nextInvoke env))
      else (Stepping, snd (drain h nextInvoke env)))"
  using assms by (simp add: lockedBlock_def split: prod.splits)

lemma forVM_armed:
  assumes "forVM env h = Some v"
  shows "forVM (armed h now env) h
     = Some (v\<lparr>referenceTime := now, preemptionTimer := \<lparr>expires_at = now + 1, waiting = False\<rparr>\<rparr>)"
  using assms by (simp add: armed_def forVM_onVM)

text \<open>
  C2: in the block of \<open>run\<close> that holds the lock on the queue, entered after one
  interpreter step, the loop is left for termination exactly when the VM is no longer
  running, or the step asked never to be invoked again, the counter of pending
  asynchronous operations is zero and the queue of callbacks is empty; nothing is changed
  by the decision itself. Accordingly one pass of the loop ends with the return of
  \<open>run\<close>, through \<open>terminate\<close>, exactly in that case; in every other case the thread
  stays in the loop. (A callback run later in the same pass may be the one posted by
  \<open>killVM\<close>; the flag it sets is seen at the decision of the next pass.)
\<close>

theorem shutdown_decision:
  "forVM env h = Some v \<longrightarrow>
     ((fst (lockedBlock h (nextInvoke, t) env) = Terminating)
        = (\<not> isRunning v \<or>
           (nextInvoke = recNeverInvokeAgain \<and> asyncIONodeCount v = 0 \<and> vmEventsCallbacks v = [])))
   \<and> (fst (lockedBlock h (nextInvoke, t) env) = Terminating \<longrightarrow>
         snd (lockedBlock h (nextInvoke, t) env) = env)
   \<and> ((fst (iteration h now (nextInvoke, t) env) = Returned)
        = (\<not> isRunning v \<or>
           (nextInvoke = recNeverInvokeAgain \<and> asyncIONodeCount v = 0 \<and> vmEventsCallbacks v = [])))
   \<and> (fst (iteration h now (nextInvoke, t) env) = Returned \<longrightarrow>
         snd (iteration h now (nextInvoke, t) env) = terminate h (armed h now env))"
proof
  assume v: "forVM env h = Some v"
  let ?c = "\<not> isRunning v \<or>
      (nextInvoke = recNeverInvokeAgain \<and> asyncIONodeCount v = 0 \<and> vmEventsCallbacks v = [])"
  have b: "(fst (lockedBlock h (nextInvoke, t) env) = Terminating) = ?c"
    "fst (lockedBlock h (nextInvoke, t) env) = Terminating \<longrightarrow>
         snd (lockedBlock h (nextInvoke, t) env) = env"
    by (simp_all add: loopState_of_block [OF v])
  let ?v2 = "v\<lparr>referenceTime := now, preemptionTimer := \<lparr>expires_at = now + 1, waiting = False\<rparr>\<rparr>"
  have v2: "forVM (armed h now env) h = Some ?v2" using v by (rule forVM_armed)
  have i: "(fst (iteration h now (nextInvoke, t) env) = Returned) = ?c"
    "fst (iteration h now (nextInvoke, t) env) = Returned \<longrightarrow>
         snd (iteration h now (nextInvoke, t) env) = terminate h (armed h now env)"
    by (simp_all add: iteration_def loopState_of_block [OF v2] isRunning_def)
  from b i show "((fst (lockedBlock h (nextInvoke, t) env) = Terminating) = ?c)
   \<and> (fst (lockedBlock h (nextInvoke, t) env) = Terminating \<longrightarrow>
         snd (lockedBlock h (nextInvoke, t) env) = env)
   \<and> ((fst (iteration h now (nextInvoke, t) env) = Returned) = ?c)
   \<and> (fst (iteration h now (nextInvoke, t) env) = Returned \<longrightarrow>
         snd (iteration h now (nextInvoke, t) env) = terminate h (armed h now env))"
    by (intro conjI)
qed

theorem shutdown_decision_witness:
  "forVM (addVM newBoostEnvironment ''x'' True) 1 = Some (newBoostVM 1)
   \<and> fst (lockedBlock 1 (recNeverInvokeAgain, 0) (addVM newBoostEnvironment ''x'' True)) = Terminating
   \<and> fst (lockedBlock 1 (recInvokeAgainLater, 5) (addVM newBoostEnvironment ''x'' True)) \<noteq> Terminating
   \<and> fst (iteration 1 0 (recNeverInvokeAgain, 0) (addVM newBoostEnvironment ''x'' True)) = Returned
   \<and> fst (iteration 1 0 (recInvokeAgainNow, 0) (addVM newBoostEnvironment ''x'' True)) \<noteq> Returned"
proof -
  let ?E = "addVM newBoostEnvironment ''x'' True"
  have f: "forVM ?E 1 = Some (newBoostVM 1)"
    by (simp add: forVM_def addVM_def newBoostEnvironment_def newBoostVM_def)
  have y: "\<not> isRunning (newBoostVM 1) \<or>
      (recNeverInvokeAgain = recNeverInvokeAgain \<and> asyncIONodeCount (newBoostVM 1) = 0
         \<and> vmEventsCallbacks (newBoostVM 1) = [])"
    by (simp add: newBoostVM_def)
  have n: "\<not> (\<not> isRunning (newBoostVM 1) \<or>
      (recInvokeAgainLater = recNeverInvokeAgain \<and> asyncIONodeCount (newBoostVM 1) = 0
         \<and> vmEventsCallbacks (newBoostVM 1) = []))"
    "\<not> (\<not> isRunning (newBoostVM 1) \<or>
      (recInvokeAgainNow = recNeverInvokeAgain \<and> asyncIONodeCount (newBoostVM 1) = 0
         \<and> vmEventsCallbacks (newBoostVM 1) = []))"
    by (simp_all add: newBoostVM_def isRunning_def)
  note a = shutdown_decision [of ?E 1 "newBoostVM 1" recNeverInvokeAgain 0 0, THEN mp, OF f]
  note b = shutdown_decision [of ?E 1 "newBoostVM 1" recInvokeAgainLater 5 0, THEN mp, OF f]
  note c = shutdown_decision [of ?E 1 "newBoostVM 1" recInvokeAgainNow 0 0, THEN mp, OF f]
  have 1: "fst (lockedBlock 1 (recNeverInvokeAgain, 0) ?E) = Terminating"
    using y by (rule a [THEN conjunct1, THEN iffD2])
  have 2: "fst (lockedBlock 1 (recInvokeAgainLater, 5) ?E) \<noteq> Terminating"
    using n(1) b [THEN conjunct1] by (simp only: simp_thms)
  have 3: "fst (iteration 1 0 (recNeverInvokeAgain, 0) ?E) = Returned"
    using y by (rule a [THEN conjunct2, THEN conjunct2, THEN conjunct1, THEN iffD2])
  have 4: "fst (iteration 1 0 (recInvokeAgainNow, 0) ?E) \<noteq> Returned"
    using n(2) c [THEN conjunct2, THEN conjunct2, THEN conjunct1]
    by (simp only: simp_thms)
  show ?thesis by (intro conjI) (rule f 1 2 3 4)+
qed


text \<open>
  C3: the inner loop runs the callbacks of the queue from the front, in the order they
  were queued, those queued meanwhile after them, until the queue is empty; the callbacks
  it has invoked are those that were in the queue, in that order, followed only by
  notifications the VM posted to itself. If the queue was not empty, \<open>nextInvoke\<close> is
  \<open>recInvokeAgainNow\<close> after the loop whatever the interpreter returned, so that the
  block neither sets the alarm timer nor waits, and the pass ends at the head of the outer
  loop, for the next step.
\<close>

theorem drain_fifo_forces_now:
  "forVM env h = Some v \<longrightarrow>
     (\<exists>v' n. forVM (snd (drain h nextInvoke env)) h = Some v'
        \<and> vmEventsCallbacks v' = []
        \<and> invoked v' = invoked v @ vmEventsCallbacks v @ replicate n (EvReceiveTerminated h))
   \<and> (vmEventsCallbacks v \<noteq> [] \<longrightarrow> fst (drain h nextInvoke env) = recInvokeAgainNow)
   \<and> (vmEventsCallbacks v \<noteq> [] \<and> isRunning v \<longrightarrow>
        fst (lockedBlock h (nextInvoke, t) env) = Stepping
      \<and> snd (lockedBlock h (nextInvoke, t) env) = snd (drain h nextInvoke env)
      \<and> (\<exists>v'. forVM (snd (lockedBlock h (nextInvoke, t) env)) h = Some v'
            \<and> alarmTimer v' = alarmTimer v)
      \<and> fst (iteration h now (nextInvoke, t) env) = AtLoopHead)"
proof
  assume v: "forVM env h = Some v"
  from drain_spec [OF v, of nextInvoke]
  obtain v' n where d: "forVM (snd (drain h nextInvoke env)) h = Some v'"
    "vmEventsCallbacks v' = []"
    "invoked v' = invoked v @ vmEventsCallbacks v @ replicate n (EvReceiveTerminated h)"
    "alarmTimer v' = alarmTimer v"
    "fst (drain h nextInvoke env)
       = (if vmEventsCallbacks v = [] then nextInvoke else recInvokeAgainNow)"
    by blast
  have one: "\<exists>v' n. forVM (snd (drain h nextInvoke env)) h = Some v'
        \<and> vmEventsCallbacks v' = []
        \<and> invoked v' = invoked v @ vmEventsCallbacks v @ replicate n (EvReceiveTerminated h)"
    using d(1,2,3) by blast
  have two: "vmEventsCallbacks v \<noteq> [] \<longrightarrow> fst (drain h nextInvoke env) = recInvokeAgainNow"
    using d(5) by simp
  have three: "fst (lockedBlock h (nextInvoke, t) env) = Stepping
      \<and> snd (lockedBlock h (nextInvoke, t) env) = snd (drain h nextInvoke env)
      \<and> (\<exists>v'. forVM (snd (lockedBlock h (nextInvoke, t) env)) h = Some v'
            \<and> alarmTimer v' = alarmTimer v)
      \<and> fst (iteration h now (nextInvoke, t) env) = AtLoopHead"
    if q: "vmEventsCallbacks v \<noteq> [] \<and> isRunning v"
  proof -
    have l: "lockedBlock h (nextInvoke, t) env = (Stepping, snd (drain h nextInvoke env))"
      using q d(5) by (simp add: loopState_of_block [OF v])
    let ?v2 = "v\<lparr>referenceTime := now, preemptionTimer := \<lparr>expires_at = now + 1, waiting = False\<rparr>\<rparr>"
    have v2: "forVM (armed h now env) h = Some ?v2" using v by (rule forVM_armed)
    from drain_spec [OF v2, of nextInvoke] q
    have "fst (drain h nextInvoke (armed h now env)) = recInvokeAgainNow" by auto
    then have "fst (lockedBlock h (nextInvoke, t) (armed h now env)) = Stepping"
      using q by (simp add: loopState_of_block [OF v2] isRunning_def)
    then obtain e3 where "lockedBlock h (nextInvoke, t) (armed h now env) = (Stepping, e3)"
      by (cases "lockedBlock h (nextInvoke, t) (armed h now env)") auto
    then have "fst (iteration h now (nextInvoke, t) env) = AtLoopHead"
      by (simp add: iteration_def)
    with l d(1,4) show ?thesis by simp
  qed
  from one two three
  show "(\<exists>v' n. forVM (snd (drain h nextInvoke env)) h = Some v'
        \<and> vmEventsCallbacks v' = []
        \<and> invoked v' = invoked v @ vmEventsCallbacks v @ replicate n (EvReceiveTerminated h))
   \<and> (vmEventsCallbacks v \<noteq> [] \<longrightarrow> fst (drain h nextInvoke env) = recInvokeAgainNow)
   \<and> (vmEventsCallbacks v \<noteq> [] \<and> isRunning v \<longrightarrow>
        fst (lockedBlock h (nextInvoke, t) env) = Stepping
      \<and> snd (lockedBlock h (nextInvoke, t) env) = snd (drain h nextInvoke env)
      \<and> (\<exists>v'. forVM (snd (lockedBlock h (nextInvoke, t) env)) h = Some v'
            \<and> alarmTimer v' = alarmTimer v)
      \<and> fst (iteration h now (nextInvoke, t) env) = AtLoopHead)"
    by blast
qed


theorem drain_fifo_forces_now_witness:
  "forVM (postVMEvent 1 (EvReceiveBuffer [2])
            (postVMEvent 1 (EvReceiveBuffer [1]) (addVM newBoostEnvironment ''x'' True))) 1
     = Some ((newBoostVM 1)\<lparr>vmEventsCallbacks := [EvReceiveBuffer [1], EvReceiveBuffer [2]]\<rparr>)
   \<and> vmEventsCallbacks
        ((newBoostVM 1)\<lparr>vmEventsCallbacks := [EvReceiveBuffer [1], EvReceiveBuffer [2]]\<rparr>) \<noteq> []
   \<and> isRunning ((newBoostVM 1)\<lparr>vmEventsCallbacks := [EvReceiveBuffer [1], EvReceiveBuffer [2]]\<rparr>)
   \<and> fst (drain 1 recInvokeAgainLater
        (postVMEvent 1 (EvReceiveBuffer [2])
            (postVMEvent 1 (EvReceiveBuffer [1]) (addVM newBoostEnvironment ''x'' True))))
       = recInvokeAgainNow
   \<and> fst (lockedBlock 1 (recInvokeAgainLater, 99)
        (postVMEvent 1 (EvReceiveBuffer [2])
            (postVMEvent 1 (EvReceiveBuffer [1]) (addVM newBoostEnvironment ''x'' True))))
       = Stepping
   \<and> fst (iteration 1 0 (recNeverInvokeAgain, 0)
        (postVMEvent 1 (EvReceiveBuffer [2])
            (postVMEvent 1 (EvReceiveBuffer [1]) (addVM newBoostEnvironment ''x'' True))))
       = AtLoopHead
   \<and> map_option (\<lambda>v. (invoked v, store v))
        (forVM (snd (drain 1 recInvokeAgainLater
          (postVMEvent 1 (EvReceiveBuffer [2])
            (postVMEvent 1 (EvReceiveBuffer [1]) (addVM newBoostEnvironment ''x'' True))))) 1)
       = Some ([EvReceiveBuffer [1], EvReceiveBuffer [2]],
               [OzCons (OzUnpickled [1]) 1, OzCons (OzUnpickled [2]) 2, ReadOnlyVariable])"
proof -
  let ?E = "postVMEvent 1 (EvReceiveBuffer [2])
            (postVMEvent 1 (EvReceiveBuffer [1]) (addVM newBoostEnvironment ''x'' True))"
  let ?v = "(newBoostVM 1)\<lparr>vmEventsCallbacks := [EvReceiveBuffer [1], EvReceiveBuffer [2]]\<rparr>"
  have f: "forVM ?E 1 = Some ?v"
    by (simp add: forVM_def postVMEvent_def onVM_def addVM_def newBoostEnvironment_def newBoostVM_def)
  have q: "vmEventsCallbacks ?v \<noteq> []" by simp
  have i: "isRunning ?v" by (simp add: isRunning_def newBoostVM_def)
  note a = drain_fifo_forces_now [of ?E 1 ?v recInvokeAgainLater 99 0, THEN mp, OF f]
  note b = drain_fifo_forces_now [of ?E 1 ?v recNeverInvokeAgain 0 0, THEN mp, OF f]
  note 1 = a [THEN conjunct2, THEN conjunct1, THEN mp, OF q]
  note 2 = a [THEN conjunct2, THEN conjunct2, THEN mp, OF conjI [OF q i], THEN conjunct1]
  note 3 = b [THEN conjunct2, THEN conjunct2, THEN mp, OF conjI [OF q i],
      THEN conjunct2, THEN conjunct2, THEN conjunct2]
  have 4: "map_option (\<lambda>v. (invoked v, store v)) (forVM (snd (drain 1 recInvokeAgainLater ?E)) 1)
       = Some ([EvReceiveBuffer [1], EvReceiveBuffer [2]],
               [OzCons (OzUnpickled [1]) 1, OzCons (OzUnpickled [2]) 2, ReadOnlyVariable])"
    by (simp add: forVM_def postVMEvent_def onVM_def addVM_def newBoostEnvironment_def
        newBoostVM_def invokeFront_def runEvent_def receiveOnVMPortBuffer_def
        sendToReadOnlyStream_def)
  show ?thesis by (intro conjI) (rule f q i 1 2 3 4)+
qed

section \<open>Killing a VM\<close>






section \<open>Termination happens once\<close>

lemma calm_refl: "calm w w"
  by (simp add: calm_def)

lemma calmD:
  assumes "calm w w'"
  shows "terminated w' = terminated w" "work w' = work w" "\<exists>ms. monitors w' = monitors w @ ms"
    "streamAsked w \<longrightarrow> streamAsked w'" "portClosed w \<longrightarrow> portClosed w'"
    "effectLog w' = effectLog w @ (if portClosed w' \<and> \<not> portClosed w then [ClosedStream] else [])"
  using assms unfolding calm_def by simp_all

lemma calm_trans:
  assumes "calm a b" "calm b c"
  shows "calm a c"
proof -
  note 1 = calmD [OF assms(1)] and 2 = calmD [OF assms(2)]
  from 1(3) obtain ms where "monitors b = monitors a @ ms" ..
  moreover from 2(3) obtain ns where "monitors c = monitors b @ ns" ..
  ultimately have "monitors c = monitors a @ (ms @ ns)" by simp
  then have m: "\<exists>ms. monitors c = monitors a @ ms" ..
  have e: "effectLog c = effectLog a @ (if portClosed c \<and> \<not> portClosed a then [ClosedStream] else [])"
    using 1(5,6) 2(5,6)
    by (cases "portClosed a"; cases "portClosed b"; cases "portClosed c"; simp)
  have t: "terminated c = terminated a" using 1(1) 2(1) by simp
  have k: "work c = work a" using 1(2) 2(2) by simp
  have s: "streamAsked a \<longrightarrow> streamAsked c" using 1(4) 2(4) by simp
  have p: "portClosed a \<longrightarrow> portClosed c" using 1(5) 2(5) by simp
  show ?thesis unfolding calm_def by (intro conjI) (rule t k m s p e)+
qed

lemma quietI:
  assumes "forVM env h = Some w" "forVM env' h = Some w'" "calm w w'"
    "\<And>k. k \<noteq> h \<Longrightarrow> forVM env' k = forVM env k"
  shows "quiet h env env'"
  unfolding quiet_def
  by (rule exI [of _ w], rule exI [of _ w'], intro conjI allI impI) (rule assms | assumption)+

lemma quiet_refl: "forVM env h = Some w \<Longrightarrow> quiet h env env"
  by (rule quietI [of env h w env w]) (simp_all add: calm_refl)

lemma quiet_trans:
  assumes "quiet h a b" "quiet h b c"
  shows "quiet h a c"
proof -
  from assms(1) obtain w w1 where 1: "forVM a h = Some w" "forVM b h = Some w1" "calm w w1"
    and o1: "\<And>k. k \<noteq> h \<Longrightarrow> forVM b k = forVM a k"
    unfolding quiet_def by blast
  from assms(2) obtain x w2 where 2: "forVM b h = Some x" "forVM c h = Some w2" "calm x w2"
    and o2: "\<And>k. k \<noteq> h \<Longrightarrow> forVM c k = forVM b k"
    unfolding quiet_def by blast
  from 1(2) 2(1) have "x = w1" by simp
  with 2(3) have "calm w1 w2" by simp
  with 1(3) have c: "calm w w2" by (rule calm_trans)
  show ?thesis
    by (rule quietI [OF 1(1) 2(2) c]) (simp add: o1 o2)
qed

lemma quiet_cong:
  assumes "quiet h a b" "\<And>k. forVM c k = forVM b k"
  shows "quiet h a c"
  using assms(1) unfolding quiet_def by (simp only: assms(2))

lemma quiet_onVM:
  assumes "forVM env h = Some w" "\<And>v. vmIdentifier (f v) = vmIdentifier v" "calm w (f w)"
  shows "quiet h env (onVM h f env)"
proof (rule quietI [OF assms(1) _ assms(3)])
  show "forVM (onVM h f env) h = Some (f w)"
    using assms(1) by (simp add: forVM_onVM [of f, OF assms(2)])
  show "forVM (onVM h f env) k = forVM env k" if "k \<noteq> h" for k
    using that by (simp add: forVM_onVM [of f, OF assms(2)])
qed

lemma quiet_flag:
  assumes "quiet h a b" "forVM a h = Some w"
  shows "\<exists>w'. forVM b h = Some w' \<and> terminated w' = terminated w"
proof -
  from assms(1) obtain x w' where "forVM a h = Some x" "forVM b h = Some w'" "calm x w'"
    unfolding quiet_def by blast
  with assms(2) have "forVM b h = Some w' \<and> terminated w' = terminated w"
    by (simp add: calm_def)
  then show ?thesis ..
qed

lemma died_flag:
  assumes "died h a b"
  shows "(\<exists>w. forVM a h = Some w \<and> \<not> terminated w) \<and> (\<exists>w'. forVM b h = Some w' \<and> terminated w')"
proof -
  from assms obtain w w' where "forVM a h = Some w" "\<not> terminated w" "forVM b h = Some w'"
    "w' = w\<lparr>terminated := True, work := False,
                asyncIONodeCount :=
                  (if streamAsked w \<and> \<not> portClosed w then asyncIONodeCount w - 1
                   else asyncIONodeCount w),
                store :=
                  (if streamAsked w \<and> \<not> portClosed w then (store w)[the (stream w) := OzNil]
                   else store w),
                stream := (if streamAsked w \<and> \<not> portClosed w then None else stream w),
                vmEventsCallbacks :=
                  vmEventsCallbacks w @ replicate (count_list (monitors w) h) (EvReceiveTerminated h),
                effectLog := effectLog w @ terminationEffects w\<rparr>"
    unfolding died_def by blast
  moreover from this(4) have "terminated w'" by simp
  ultimately show ?thesis by blast
qed

lemma once_quiet: "quiet h a b \<Longrightarrow> once h a b"
  by (simp add: once_def)

lemma once_refl: "forVM env h = Some w \<Longrightarrow> once h env env"
  by (rule once_quiet) (rule quiet_refl)

lemma once_died:
  assumes "died h a b"
  shows "once h a b"
proof -
  from died_flag [OF assms] obtain w w' where "forVM a h = Some w" "forVM b h = Some w'" by auto
  then have "quiet h a a" "quiet h b b" by (simp_all add: quiet_refl)
  with assms show ?thesis unfolding once_def by blast
qed

lemma quiet_self: "quiet h a b \<Longrightarrow> \<exists>w'. forVM b h = Some w'"
  unfolding quiet_def by blast

lemma once_self: "once h a b \<Longrightarrow> \<exists>w'. forVM b h = Some w'"
  unfolding once_def using quiet_self by blast

lemma once_mono:
  assumes "once h a b" "forVM a h = Some w" "forVM b h = Some w'" "terminated w"
  shows "terminated w'"
proof -
  from assms(1) consider "quiet h a b"
    | e1 e2 where "quiet h a e1" "died h e1 e2" "quiet h e2 b"
    unfolding once_def by blast
  then show ?thesis
  proof cases
    case 1
    from quiet_flag [OF 1 assms(2)] assms(3,4) show ?thesis by simp
  next
    case 2
    from quiet_flag [OF 2(1) assms(2)] assms(4) died_flag [OF 2(2)] show ?thesis by auto
  qed
qed

lemma once_trans:
  assumes "once h a b" "once h b c"
  shows "once h a c"
proof -
  from assms(1) consider (q) "quiet h a b"
    | (d) e1 e2 where "quiet h a e1" "died h e1 e2" "quiet h e2 b"
    unfolding once_def by blast
  then show ?thesis
  proof cases
    case q
    from assms(2) consider (q2) "quiet h b c"
      | (d2) e1 e2 where "quiet h b e1" "died h e1 e2" "quiet h e2 c"
      unfolding once_def by blast
    then show ?thesis
    proof cases
      case q2
      from quiet_trans [OF q q2] show ?thesis by (rule once_quiet)
    next
      case d2
      from quiet_trans [OF q d2(1)] d2(2,3) show ?thesis unfolding once_def by blast
    qed
  next
    case d
    from died_flag [OF d(2)] obtain w2 where w2: "forVM e2 h = Some w2" "terminated w2" by auto
    from quiet_flag [OF d(3) w2(1)] w2(2)
    obtain wb where wb: "forVM b h = Some wb" "terminated wb" by auto
    from assms(2) consider (q2) "quiet h b c"
      | (d2) e1' e2' where "quiet h b e1'" "died h e1' e2'" "quiet h e2' c"
      unfolding once_def by blast
    then show ?thesis
    proof cases
      case q2
      from d(1,2) quiet_trans [OF d(3) q2] show ?thesis unfolding once_def by blast
    next
      case d2
      from quiet_flag [OF d2(1) wb(1)] wb(2) died_flag [OF d2(2)] show ?thesis by auto
    qed
  qed
qed

lemma once_cong:
  assumes "once h a b" "\<And>k. forVM c k = forVM b k"
  shows "once h a c"
proof -
  have "quiet h e c" if "quiet h e b" for e
    using that assms(2) by (rule quiet_cong)
  with assms(1) show ?thesis unfolding once_def by blast
qed

lemma terminatedVM_explicit:
  "terminatedVM h w =
     w\<lparr>terminated := True, work := False,
       asyncIONodeCount :=
         (if streamAsked w \<and> \<not> portClosed w then asyncIONodeCount w - 1
          else asyncIONodeCount w),
       store :=
         (if streamAsked w \<and> \<not> portClosed w then (store w)[the (stream w) := OzNil]
          else store w),
       stream := (if streamAsked w \<and> \<not> portClosed w then None else stream w),
       vmEventsCallbacks :=
         vmEventsCallbacks w @ replicate (count_list (monitors w) h) (EvReceiveTerminated h),
       effectLog := effectLog w @ terminationEffects w\<rparr>"
proof -
  define c where "c = (streamAsked w \<and> \<not> portClosed w)"
  have s: "streamAsked (w\<lparr>terminated := True\<rparr>) = streamAsked w"
    "portClosed (w\<lparr>terminated := True\<rparr>) = portClosed w"
    by (simp_all add: streamAsked_def portClosed_def)
  have cl: "closeStream (w\<lparr>terminated := True\<rparr>) =
      (if c then w\<lparr>terminated := True, asyncIONodeCount := asyncIONodeCount w - 1,
                   store := (store w)[the (stream w) := OzNil], stream := None,
                   effectLog := effectLog w @ [ClosedStream]\<rparr>
       else w\<lparr>terminated := True\<rparr>)"
    unfolding closeStream_def s c_def [symmetric] by (cases c) simp_all
  have te: "terminationEffects w =
      (if c then [ClosedStream] else []) @ map PostedTerminated (monitors w) @ [DeletedWork]"
    unfolding terminationEffects_def c_def [symmetric] ..
  show ?thesis
    unfolding c_def [symmetric]
    by (cases c) (simp_all add: terminatedVM_def told_def Let_def cl te)
qed

lemma told_other:
  "k \<noteq> h \<Longrightarrow> told h k ms
     = (\<lambda>u. u\<lparr>vmEventsCallbacks :=
                vmEventsCallbacks u @ replicate (count_list ms k) (EvReceiveTerminated h)\<rparr>)"
  by (rule ext) (simp add: told_def)

lemma died_terminate:
  assumes "forVM env h = Some w" "\<not> terminated w"
  shows "died h env (terminate h env)"
  unfolding died_def
proof (rule exI [of _ w], intro conjI allI impI)
  show "forVM env h = Some w" by (rule assms)
  show "\<not> terminated w" by (rule assms)
  show "forVM (terminate h env) h = Some
           (w\<lparr>terminated := True, work := False,
              asyncIONodeCount :=
                (if streamAsked w \<and> \<not> portClosed w then asyncIONodeCount w - 1
                 else asyncIONodeCount w),
              store :=
                (if streamAsked w \<and> \<not> portClosed w then (store w)[the (stream w) := OzNil]
                 else store w),
              stream := (if streamAsked w \<and> \<not> portClosed w then None else stream w),
              vmEventsCallbacks :=
                vmEventsCallbacks w @ replicate (count_list (monitors w) h) (EvReceiveTerminated h),
              effectLog := effectLog w @ terminationEffects w\<rparr>)"
    using assms(2) by (simp add: forVM_terminate [OF assms(1)] terminatedVM_explicit)
  show "forVM (terminate h env) k =
              map_option
                (\<lambda>u. u\<lparr>vmEventsCallbacks :=
                         vmEventsCallbacks u
                         @ replicate (count_list (monitors w) k) (EvReceiveTerminated h)\<rparr>)
                (forVM env k)" if "k \<noteq> h" for k
    using assms(2) that by (simp add: forVM_terminate [OF assms(1)] told_other)
qed

lemma terminate_again:
  assumes "forVM env h = Some w" "terminated w"
  shows "terminate h env = env"
  using assms by (simp add: terminate_def)

lemma once_terminate:
  assumes "forVM env h = Some w"
  shows "once h env (terminate h env)"
proof (cases "terminated w")
  case True
  with once_refl [OF assms] terminate_again [OF assms] show ?thesis by simp
next
  case False
  with assms have "died h env (terminate h env)" by (rule died_terminate)
  then show ?thesis by (rule once_died)
qed

lemma calm_same:
  assumes "terminated w' = terminated w" "work w' = work w" "monitors w' = monitors w"
    "headOfStream w' = headOfStream w" "(stream w' = None) = (stream w = None)"
    "effectLog w' = effectLog w"
  shows "calm w w'"
proof -
  from assms(4,5) have "streamAsked w' = streamAsked w" "portClosed w' = portClosed w"
    by (simp_all add: streamAsked_def portClosed_def)
  with assms(1,2,3,6) show ?thesis unfolding calm_def by simp
qed

lemma calm_fields:
  "calm w (w\<lparr>vmEventsCallbacks := q\<rparr>)"
  "calm w (w\<lparr>invoked := i\<rparr>)"
  "calm w (w\<lparr>alarmTimer := a\<rparr>)"
  "calm w (w\<lparr>preemptionTimer := p\<rparr>)"
  "calm w (w\<lparr>referenceTime := now, preemptionTimer := p\<rparr>)"
  by (rule calm_same; simp)+

lemma calm_monitor: "calm w (w\<lparr>monitors := monitors w @ [m]\<rparr>)"
proof -
  have "streamAsked (w\<lparr>monitors := monitors w @ [m]\<rparr>) = streamAsked w"
    "portClosed (w\<lparr>monitors := monitors w @ [m]\<rparr>) = portClosed w"
    by (simp_all add: streamAsked_def portClosed_def)
  then show ?thesis unfolding calm_def by simp
qed

lemma calm_receive: "calm w (receiveOnVMPort w x)"
  by (rule calm_same) simp_all

lemma calm_receiveBuffer: "calm w (receiveOnVMPortBuffer w b)"
  unfolding receiveBuffer_as_value by (rule calm_receive)

lemma calm_closeStream: "calm w (closeStream w)"
proof (cases "streamAsked w \<and> \<not> portClosed w")
  case True
  then have "closeStream w =
      w\<lparr>asyncIONodeCount := asyncIONodeCount w - 1, store := (store w)[the (stream w) := OzNil],
        stream := None, effectLog := effectLog w @ [ClosedStream]\<rparr>"
    by (simp add: closeStream_def)
  then have "streamAsked (closeStream w) = streamAsked w" "portClosed (closeStream w)"
    "effectLog (closeStream w) = effectLog w @ [ClosedStream]"
    by (simp_all add: streamAsked_def portClosed_def)
  with True show ?thesis unfolding calm_def by simp
next
  case False
  then have "closeStream w = w" by (auto simp: closeStream_def)
  then show ?thesis by (simp add: calm_refl)
qed

lemma calm_ask: "calm w (applyOp Ask w)"
proof (cases "headOfStream w")
  case None
  then have "applyOp Ask w = w" by (simp add: getStream_def)
  then show ?thesis by (simp add: calm_refl)
next
  case (Some r)
  then have "applyOp Ask w = w\<lparr>asyncIONodeCount := asyncIONodeCount w + 1, headOfStream := None\<rparr>"
    by (simp add: getStream_def)
  then have "streamAsked (applyOp Ask w)" "portClosed (applyOp Ask w) = portClosed w"
    "effectLog (applyOp Ask w) = effectLog w" "terminated (applyOp Ask w) = terminated w"
    "work (applyOp Ask w) = work w" "monitors (applyOp Ask w) = monitors w"
    by (simp_all add: streamAsked_def portClosed_def)
  then show ?thesis unfolding calm_def by simp
qed

lemma calm_expire: "calm w (onPreemptionTimerExpire err now w)"
  by (rule calm_same) (simp_all add: onPreemptionTimerExpire_def)

lemma once_onVM:
  assumes "forVM env h = Some w" "\<And>v. vmIdentifier (f v) = vmIdentifier v" "calm w (f w)"
  shows "once h env (onVM h f env)"
  by (rule once_quiet) (rule quiet_onVM [OF assms])

lemma once_postVMEvent:
  "forVM env h = Some w \<Longrightarrow> once h env (postVMEvent h ev env)"
  unfolding postVMEvent_def by (rule once_onVM, assumption, simp, rule calm_fields)

lemma once_addMonitor:
  "forVM env h = Some w \<Longrightarrow> once h env (addMonitor h m env)"
  unfolding addMonitor_def by (rule once_onVM, assumption, simp, rule calm_monitor)

lemma once_cancelAlarm:
  "forVM env h = Some w \<Longrightarrow> once h env (cancelAlarm h env)"
  unfolding cancelAlarm_def by (rule once_onVM, assumption, simp, rule calm_fields)

lemma once_enterRun:
  "forVM env h = Some w \<Longrightarrow> once h env (enterRun h now env)"
  unfolding enterRun_def by (rule once_onVM, assumption, simp, rule calm_fields)

lemma once_killVM:
  assumes "forVM env h = Some w"
  shows "once h env (killVM env h c)"
proof (cases "isRunning w")
  case False
  with assms have "killVM env h c = env" by (simp add: killVM_def)
  with once_refl [OF assms] show ?thesis by simp
next
  case True
  have "forVM (killVM env h c) k = forVM (postVMEvent h EvTerminate env) k" for k
    using assms True by (simp add: killVM_def requestTermination_def Let_def forVM_def)
  with once_postVMEvent [OF assms, of EvTerminate] show ?thesis by (rule once_cong)
qed

lemma once_runEvent:
  assumes "forVM env h = Some w"
  shows "once h env (runEvent h ev env)"
proof (cases ev)
  case EvTerminate
  with once_terminate [OF assms] show ?thesis by (simp add: runEvent_def)
next
  case (EvReceiveTerminated d)
  have "once h env (onVM h (\<lambda>v. receiveOnVMPort v (OzTuple ''terminated'' d)) env)"
    by (rule once_onVM [OF assms]) (simp, rule calm_receive)
  with EvReceiveTerminated show ?thesis by (simp add: runEvent_def)
next
  case (EvReceiveBuffer b)
  have "once h env (onVM h (\<lambda>v. receiveOnVMPortBuffer v b) env)"
    by (rule once_onVM [OF assms]) (simp, rule calm_receiveBuffer)
  with EvReceiveBuffer show ?thesis by (simp add: runEvent_def)
qed

lemma once_invokeFront:
  assumes "forVM env h = Some w"
  shows "once h env (invokeFront h ev env)"
proof -
  let ?e1 = "onVM h (\<lambda>v. v\<lparr>invoked := invoked v @ [ev]\<rparr>) env"
  have 1: "once h env ?e1" by (rule once_onVM [OF assms]) (simp, rule calm_fields)
  from once_self [OF 1] obtain w1 where w1: "forVM ?e1 h = Some w1" ..
  have 2: "once h ?e1 (runEvent h ev ?e1)" by (rule once_runEvent [OF w1])
  from once_self [OF 2] obtain w2 where w2: "forVM (runEvent h ev ?e1) h = Some w2" ..
  have 3: "once h (runEvent h ev ?e1)
     (onVM h (\<lambda>v. v\<lparr>vmEventsCallbacks := tl (vmEventsCallbacks v)\<rparr>) (runEvent h ev ?e1))"
    by (rule once_onVM [OF w2]) (simp, rule calm_fields)
  from once_trans [OF once_trans [OF 1 2] 3] show ?thesis
    by (simp add: invokeFront_def)
qed

lemma once_drain:
  assumes "forVM env h = Some w"
  shows "once h env (snd (drain h nextInvoke env))"
  using assms
proof (induction h nextInvoke env arbitrary: w rule: drain.induct)
  case (1 h nextInvoke env)
  note w = "1.prems"
  show ?case
  proof (cases "vmEventsCallbacks w")
    case Nil
    with w once_refl [OF w] show ?thesis by simp
  next
    case (Cons ev rest)
    have a: "once h env (invokeFront h ev env)" by (rule once_invokeFront [OF w])
    from once_self [OF a] obtain w1 where w1: "forVM (invokeFront h ev env) h = Some w1" ..
    from "1.IH" [OF w Cons w1]
    have b: "once h (invokeFront h ev env) (snd (drain h recInvokeAgainNow (invokeFront h ev env)))" .
    have "drain h nextInvoke env = drain h recInvokeAgainNow (invokeFront h ev env)"
      using w Cons by simp
    with once_trans [OF a b] show ?thesis by simp
  qed
qed

lemma once_lockedBlock:
  assumes "forVM env h = Some w"
  shows "once h env (snd (lockedBlock h pr env))"
proof -
  obtain nextInvoke t where pr: "pr = (nextInvoke, t)" by (cases pr)
  let ?d = "snd (drain h nextInvoke env)"
  have d: "once h env ?d" by (rule once_drain [OF assms])
  from once_self [OF d] obtain w1 where w1: "forVM ?d h = Some w1" ..
  have a: "once h env (onVM h (\<lambda>v. v\<lparr>alarmTimer := \<lparr>expires_at = t, waiting = True\<rparr>\<rparr>) ?d)"
    by (rule once_trans [OF d]) (rule once_onVM [OF w1], simp, rule calm_fields)
  show ?thesis
    unfolding pr loopState_of_block [OF assms]
    using once_refl [OF assms] d a by simp
qed

lemma forVM_terminate_self:
  assumes "forVM env h = Some w"
  shows "\<exists>w'. forVM (terminate h env) h = Some w' \<and> terminated w'"
  using assms by (simp add: forVM_terminate [OF assms] terminatedVM_explicit)

lemma leaveRun_steps:
  assumes "forVM env h = Some w"
  shows "once h env (snd (leaveRun h pr env))
       \<and> (fst (leaveRun h pr env) = Returned \<longrightarrow>
            (\<exists>w'. forVM (snd (leaveRun h pr env)) h = Some w' \<and> terminated w'))"
proof -
  let ?e2 = "onVM h (\<lambda>v. v\<lparr>preemptionTimer := (preemptionTimer v)\<lparr>waiting := False\<rparr>\<rparr>) env"
  obtain st e3 where l: "lockedBlock h pr ?e2 = (st, e3)"
    by (cases "lockedBlock h pr ?e2")
  have a: "once h env ?e2" by (rule once_onVM [OF assms]) (simp, rule calm_fields)
  from once_self [OF a] obtain w2 where w2: "forVM ?e2 h = Some w2" ..
  from once_lockedBlock [OF w2, of pr] l have b: "once h ?e2 e3" by simp
  from once_self [OF b] obtain w3 where w3: "forVM e3 h = Some w3" ..
  note ab = once_trans [OF a b]
  show ?thesis
  proof (cases st)
    case Stepping
    with l have "leaveRun h pr env = (AtLoopHead, cancelAlarm h e3)"
      by (simp add: leaveRun_def)
    with once_trans [OF ab once_cancelAlarm [OF w3]] show ?thesis by simp
  next
    case AwaitingWork
    with l have "leaveRun h pr env = (Waiting, e3)" by (simp add: leaveRun_def)
    with ab show ?thesis by simp
  next
    case Terminating
    with l have "leaveRun h pr env = (Returned, terminate h e3)"
      by (simp add: leaveRun_def)
    with once_trans [OF ab once_terminate [OF w3]] forVM_terminate_self [OF w3]
    show ?thesis by simp
  qed
qed

lemma act_steps:
  assumes "forVM env h = Some w" "p = Returned \<longrightarrow> terminated w"
  shows "once h env (snd (act h a (p, env)))
       \<and> (fst (act h a (p, env)) = Returned \<longrightarrow>
            (\<exists>w'. forVM (snd (act h a (p, env))) h = Some w' \<and> terminated w'))"
proof -
  have keep: "once h env e \<Longrightarrow>
       once h env e \<and> (p = Returned \<longrightarrow> (\<exists>w'. forVM e h = Some w' \<and> terminated w'))" for e
    using once_self [of h env e] once_mono [of h env e w] assms by blast
  note same = keep [OF once_refl [OF assms(1)]]
  show ?thesis
  proof (cases a)
    case (Enter now)
    show ?thesis
    proof (cases "p = AtLoopHead")
      case True
      with Enter once_enterRun [OF assms(1), of now] show ?thesis by simp
    next
      case False
      with Enter same show ?thesis by simp
    qed
  next
    case (Leave nextInvoke t)
    show ?thesis
    proof (cases "p = InRun")
      case True
      with Leave leaveRun_steps [OF assms(1), of "(nextInvoke, t)"] show ?thesis by simp
    next
      case False
      with Leave same show ?thesis by simp
    qed
  next
    case Wake
    show ?thesis
    proof (cases "p = Waiting")
      case True
      with Wake once_cancelAlarm [OF assms(1)] show ?thesis by simp
    next
      case False
      with Wake same show ?thesis by simp
    qed
  next
    case GetStream
    have "once h env (onVM h (applyOp Ask) env)"
      by (rule once_onVM [OF assms(1)]) (rule vmIdentifier_applyOp, rule calm_ask)
    from keep [OF this] GetStream same show ?thesis by (cases "p = InRun") simp_all
  next
    case CloseStream
    have "once h env (onVM h closeStream env)"
      by (rule once_onVM [OF assms(1)]) (simp, rule calm_closeStream)
    from keep [OF this] CloseStream same show ?thesis by (cases "p = InRun") simp_all
  next
    case (Expire err now)
    have "once h env (onVM h (onPreemptionTimerExpire err now) env)"
      by (rule once_onVM [OF assms(1)]) (simp, rule calm_expire)
    from keep [OF this] Expire show ?thesis by simp
  next
    case (Kill c)
    with keep [OF once_killVM [OF assms(1), of c]] show ?thesis by simp
  next
    case (Post ev)
    with keep [OF once_postVMEvent [OF assms(1), of ev]] show ?thesis by simp
  next
    case (Monitor m)
    with keep [OF once_addMonitor [OF assms(1), of m]] show ?thesis by simp
  qed
qed

lemma exec_steps:
  assumes "forVM env h = Some w" "p = Returned \<longrightarrow> terminated w"
  shows "once h env (snd (exec h acts (p, env)))
       \<and> (fst (exec h acts (p, env)) = Returned \<longrightarrow>
            (\<exists>w'. forVM (snd (exec h acts (p, env))) h = Some w' \<and> terminated w'))"
  using assms
proof (induction acts arbitrary: p env w)
  case Nil
  with once_refl [of env h w] show ?case by simp
next
  case (Cons a acts)
  show ?case
  proof (cases "exited env \<noteq> None")
    case True
    with Cons.prems once_refl [of env h w] show ?thesis by simp
  next
    case False
    obtain p1 e1 where a: "act h a (p, env) = (p1, e1)" by (cases "act h a (p, env)")
    from act_steps [OF Cons.prems, of a] a
    have m: "once h env e1"
      and r: "p1 = Returned \<longrightarrow> (\<exists>w'. forVM e1 h = Some w' \<and> terminated w')"
      by simp_all
    from once_self [OF m] obtain w1 where w1: "forVM e1 h = Some w1" ..
    with r have r1: "p1 = Returned \<longrightarrow> terminated w1" by simp
    from Cons.IH [OF w1 r1]
    have "once h e1 (snd (exec h acts (p1, e1)))"
      and "fst (exec h acts (p1, e1)) = Returned \<longrightarrow>
            (\<exists>w'. forVM (snd (exec h acts (p1, e1))) h = Some w' \<and> terminated w')"
      by simp_all
    with once_trans [OF m] False a show ?thesis by simp
  qed
qed

text \<open>
  C1: termination is performed exactly once. \<open>terminate\<close> is called on the thread of
  the VM only: by \<open>run\<close> after the loop, and by the callback that \<open>killVM\<close> posts,
  which the loop itself runs. A call of \<open>terminate\<close> for a running VM does what
  \<open>died\<close> says: it sets the flag, closes the stream if it was asked for and is still
  open (the tail is bound to nil and the counter of pending operations decremented),
  posts one notification to every monitor of the list and deletes the keep-alive object;
  a call for a VM whose flag is set changes nothing. Whatever the order in which the
  passes of the loop, what the program does during \<open>vm->run()\<close> (asking for the
  stream, closing it), wake-ups, firings of the preemption timer, calls of \<open>killVM\<close>,
  callbacks posted and monitors registered by other threads follow each other, for a VM
  that starts running: either the VM has not terminated, nothing of termination has
  happened and \<open>run\<close> has not returned; or the VM has terminated at one moment of the
  run, with the monitors and the stream it had at that moment, and nothing of termination
  has happened before or after. A kill request and a shutdown decided by the loop itself,
  in either order, therefore terminate the VM once.
\<close>

theorem termination_exactly_once:
  "(\<forall>e w. forVM e h = Some w \<longrightarrow>
       (if terminated w then terminate h e = e else died h e (terminate h e)))
   \<and> (forVM env h = Some v \<and> isRunning v \<longrightarrow>
        (quiet h env (snd (exec h acts (AtLoopHead, env)))
           \<and> fst (exec h acts (AtLoopHead, env)) \<noteq> Returned)
      \<or> (\<exists>e1 e2. quiet h env e1 \<and> died h e1 e2
            \<and> quiet h e2 (snd (exec h acts (AtLoopHead, env)))))"
proof (intro conjI allI impI)
  show "if terminated w then terminate h e = e else died h e (terminate h e)"
    if "forVM e h = Some w" for e w
    using terminate_again [OF that] died_terminate [OF that] by (cases "terminated w") simp_all
next
  assume a: "forVM env h = Some v \<and> isRunning v"
  then have v: "forVM env h = Some v" and nt: "\<not> terminated v" by (simp_all add: isRunning_def)
  let ?p = "fst (exec h acts (AtLoopHead, env))" and ?e = "snd (exec h acts (AtLoopHead, env))"
  from exec_steps [OF v, of AtLoopHead acts]
  have m: "once h env ?e"
    and r: "?p = Returned \<longrightarrow> (\<exists>w'. forVM ?e h = Some w' \<and> terminated w')"
    by simp_all
  from m consider (q) "quiet h env ?e"
    | (d) "\<exists>e1 e2. quiet h env e1 \<and> died h e1 e2 \<and> quiet h e2 ?e"
    unfolding once_def by blast
  then show "(quiet h env ?e \<and> ?p \<noteq> Returned)
      \<or> (\<exists>e1 e2. quiet h env e1 \<and> died h e1 e2 \<and> quiet h e2 ?e)"
  proof cases
    case q
    from quiet_flag [OF q v] nt r have "?p \<noteq> Returned" by auto
    with q show ?thesis by simp
  next
    case d
    then show ?thesis ..
  qed
qed

theorem termination_exactly_once_witness:
  "forVM (addVM (addVM newBoostEnvironment ''x'' True) ''y'' True) 2 = Some (newBoostVM 2)
   \<and> isRunning (newBoostVM 2)
   \<and> fst (exec 2 [Enter 10, GetStream, Monitor 1, Post (EvReceiveBuffer [7]),
                  Leave recInvokeAgainNow 0, Kill 7, Enter 11, Leave recNeverInvokeAgain 0,
                  Enter 12, Leave recNeverInvokeAgain 0]
            (AtLoopHead, addVM (addVM newBoostEnvironment ''x'' True) ''y'' True)) = Returned
   \<and> (\<exists>e1 e2. quiet 2 (addVM (addVM newBoostEnvironment ''x'' True) ''y'' True) e1
         \<and> died 2 e1 e2
         \<and> quiet 2 e2
             (snd (exec 2 [Enter 10, GetStream, Monitor 1, Post (EvReceiveBuffer [7]),
                           Leave recInvokeAgainNow 0, Kill 7, Enter 11, Leave recNeverInvokeAgain 0,
                           Enter 12, Leave recNeverInvokeAgain 0]
                     (AtLoopHead, addVM (addVM newBoostEnvironment ''x'' True) ''y'' True))))
   \<and> map_option (\<lambda>v. (terminated v, work v, asyncIONodeCount v, store v, stream v, effectLog v))
        (forVM (snd (exec 2 [Enter 10, GetStream, Monitor 1, Post (EvReceiveBuffer [7]),
                             Leave recInvokeAgainNow 0, Kill 7, Enter 11, Leave recNeverInvokeAgain 0,
                             Enter 12, Leave recNeverInvokeAgain 0]
                       (AtLoopHead, addVM (addVM newBoostEnvironment ''x'' True) ''y'' True))) 2)
       = Some (True, False, 0, [OzCons (OzUnpickled [7]) 1, OzNil], None,
               [ClosedStream, PostedTerminated 1, DeletedWork])
   \<and> map_option vmEventsCallbacks
        (forVM (snd (exec 2 [Enter 10, GetStream, Monitor 1, Post (EvReceiveBuffer [7]),
                             Leave recInvokeAgainNow 0, Kill 7, Enter 11, Leave recNeverInvokeAgain 0,
                             Enter 12, Leave recNeverInvokeAgain 0]
                       (AtLoopHead, addVM (addVM newBoostEnvironment ''x'' True) ''y'' True))) 1)
       = Some [EvReceiveTerminated 2]
   \<and> died 2 (addVM (addVM newBoostEnvironment ''x'' True) ''y'' True)
        (terminate 2 (addVM (addVM newBoostEnvironment ''x'' True) ''y'' True))"
proof -
  let ?E = "addVM (addVM newBoostEnvironment ''x'' True) ''y'' True"
  let ?acts = "[Enter 10, GetStream, Monitor 1, Post (EvReceiveBuffer [7]),
                Leave recInvokeAgainNow 0, Kill 7, Enter 11, Leave recNeverInvokeAgain 0,
                Enter 12, Leave recNeverInvokeAgain 0]"
  let ?X = "exec 2 ?acts (AtLoopHead, ?E)"
  note run = forVM_def addVM_def newBoostEnvironment_def newBoostVM_def onVM_def enterRun_def
    leaveRun_def lockedBlock_def isRunning_def getStream_def addMonitor_def postVMEvent_def
    killVM_def requestTermination_def Let_def invokeFront_def runEvent_def
    receiveOnVMPortBuffer_def sendToReadOnlyStream_def terminate_def tellMonitors_def
    closeStream_def streamAsked_def portClosed_def cancelAlarm_def
  have f: "forVM ?E 2 = Some (newBoostVM 2)" by (simp add: run)
  have i: "isRunning (newBoostVM 2)" by (simp add: run)
  have r: "fst ?X = Returned" by (simp add: run)
  have s: "map_option (\<lambda>v. (terminated v, work v, asyncIONodeCount v, store v, stream v, effectLog v))
        (forVM (snd ?X) 2)
       = Some (True, False, 0, [OzCons (OzUnpickled [7]) 1, OzNil], None,
               [ClosedStream, PostedTerminated 1, DeletedWork])"
    by (simp add: run)
  have m: "map_option vmEventsCallbacks (forVM (snd ?X) 1) = Some [EvReceiveTerminated 2]"
    by (simp add: run)
  note t = termination_exactly_once [of 2 ?E "newBoostVM 2" ?acts]
  note t2 = t [THEN conjunct2, THEN mp, OF conjI [OF f i]]
  have d: "\<exists>e1 e2. quiet 2 ?E e1 \<and> died 2 e1 e2 \<and> quiet 2 e2 (snd ?X)"
  proof (rule disjE [OF t2])
    assume "quiet 2 ?E (snd ?X) \<and> fst ?X \<noteq> Returned"
    then have "fst ?X \<noteq> Returned" by (rule conjunct2)
    from this r show ?thesis by (rule notE)
  next
    assume "\<exists>e1 e2. quiet 2 ?E e1 \<and> died 2 e1 e2 \<and> quiet 2 e2 (snd ?X)"
    then show ?thesis .
  qed
  have nt: "\<not> terminated (newBoostVM 2)" by (simp add: newBoostVM_def)
  from t [THEN conjunct1, THEN spec, THEN spec, THEN mp, OF f]
  have "if terminated (newBoostVM 2) then terminate 2 ?E = ?E else died 2 ?E (terminate 2 ?E)" .
  then have k: "died 2 ?E (terminate 2 ?E)"
    by (simp only: nt if_False)
  show ?thesis by (intro conjI) (rule f i r d s m k)+
qed

end
